theory Spec2Isabelle
  imports Complex_Main "HOL-Library.Multiset"
begin

section \<open>ValueSet: the candidate digits of one cell\<close>

text \<open>
  Modelled from the spec: class \<open>ValueSet\<close> (\<open>valueset.h\<close> is not among the sources).
  The spec describes a bitset of width \<open>max\<close> with set algebra: \<open>init(max)\<close>, union
  (\<open>+\<close>), difference (\<open>-\<close>), complement within the universe of \<open>max\<close> digits (\<open>~\<close>),
  \<open>count()\<close>, \<open>fixed()\<close> (count = 1), \<open>empty()\<close> (count = 0) and \<open>index()\<close> (the
  position of the single set bit of a fixed set; digit \<open>d\<close> sits at position \<open>d - 1\<close>,
  so \<open>index({5}) = 4\<close>).  A value is the universe size together with the set of the
  positions whose bit is set.
\<close>

record ValueSet =
  maxVal :: nat
  members :: "nat set"

definition Init :: "nat \<Rightarrow> ValueSet" where
  "Init m = \<lparr>maxVal = m, members = {}\<rparr>"

definition vs_plus :: "ValueSet \<Rightarrow> ValueSet \<Rightarrow> ValueSet" where
  "vs_plus a b = a\<lparr>members := members a \<union> members b\<rparr>"

definition vs_minus :: "ValueSet \<Rightarrow> ValueSet \<Rightarrow> ValueSet" where
  "vs_minus a b = a\<lparr>members := members a - members b\<rparr>"

definition vs_compl :: "ValueSet \<Rightarrow> ValueSet" where
  "vs_compl a = a\<lparr>members := {0..<maxVal a} - members a\<rparr>"

definition Count :: "ValueSet \<Rightarrow> nat" where
  "Count a = card (members a)"

definition Fixed :: "ValueSet \<Rightarrow> bool" where
  "Fixed a = (Count a = 1)"

definition Empty :: "ValueSet \<Rightarrow> bool" where
  "Empty a = (Count a = 0)"

text \<open>
  The spec gives \<open>index()\<close> for a fixed set only.  The lowest member is taken for
  every other non-empty set and 0 for the empty one; the source reads \<open>Index()\<close> of a
  set that need not be fixed in one place (\<open>CheckSolution\<close>), where the result does
  not depend on it.
\<close>

definition Index :: "ValueSet \<Rightarrow> nat" where
  "Index a = (if members a = {} then 0 else Min (members a))"

text \<open>
  The operator \<open>^\<close> of the class is used once, in \<open>Rule1_Elimination\<close>.  Its body is
  not among the sources, and the spec names it in two ways (symmetric difference in the
  data model, removal of the fixed values in Rule 1), so the functions that use it take
  it as the parameter \<open>xr\<close>.  The two readings are:
\<close>

definition vs_symdiff :: "ValueSet \<Rightarrow> ValueSet \<Rightarrow> ValueSet" where
  "vs_symdiff a b = a\<lparr>members := (members a - members b) \<union> (members b - members a)\<rparr>"

definition vs_inter :: "ValueSet \<Rightarrow> ValueSet \<Rightarrow> ValueSet" where
  "vs_inter a b = a\<lparr>members := members a \<inter> members b\<rparr>"

section \<open>Board\<close>

text \<open>
  \<open>class Board\<close> of \<open>board.h\<close>.  The \<open>int\<close> fields hold sizes, indices and counters
  that start at 0 and only grow, far below the \<open>int\<close> range, so they are naturals.
  The array \<open>cells\<close> is a list.
\<close>

record Board =
  order :: nat
  numUnits :: nat
  numCells :: nat
  cells :: "ValueSet list"
  numFixedCells :: nat
  numInfeasible :: nat

definition GetCell :: "Board \<Rightarrow> nat \<Rightarrow> ValueSet" where
  "GetCell b i = cells b ! i"

definition CellCount :: "Board \<Rightarrow> nat" where
  "CellCount b = numCells b"

definition GetNumUnits :: "Board \<Rightarrow> nat" where
  "GetNumUnits b = numUnits b"

definition FixedCellCount :: "Board \<Rightarrow> nat" where
  "FixedCellCount b = numFixedCells b"

definition InfeasibleCellCount :: "Board \<Rightarrow> nat" where
  "InfeasibleCellCount b = numInfeasible b"

definition RowCell :: "Board \<Rightarrow> nat \<Rightarrow> nat \<Rightarrow> nat" where
  "RowCell b iRow iCell = iRow * numUnits b + iCell"

definition ColCell :: "Board \<Rightarrow> nat \<Rightarrow> nat \<Rightarrow> nat" where
  "ColCell b iCol iCell = iCell * numUnits b + iCol"

definition BoxCell :: "Board \<Rightarrow> nat \<Rightarrow> nat \<Rightarrow> nat" where
  "BoxCell b iBox iCell =
     (let boxCol = iBox mod order b;
          boxRow = iBox div order b;
          topCorner = (boxCol * order b) + boxRow * order b * order b * order b
      in topCorner + (iCell mod order b) + (iCell div order b) * order b * order b)"

definition RowForCell :: "Board \<Rightarrow> nat \<Rightarrow> nat" where
  "RowForCell b iCell = iCell div numUnits b"

definition ColForCell :: "Board \<Rightarrow> nat \<Rightarrow> nat" where
  "ColForCell b iCell = iCell mod numUnits b"

definition BoxForCell :: "Board \<Rightarrow> nat \<Rightarrow> nat" where
  "BoxForCell b iCell =
     order b * (iCell div (order b * order b * order b))
       + ((iCell mod (order b * order b)) div order b)"

definition SetCellDirect :: "Board \<Rightarrow> nat \<Rightarrow> ValueSet \<Rightarrow> Board" where
  "SetCellDirect b i c = b\<lparr>cells := (cells b)[i := c]\<rparr>"

definition IncrementFixedCells :: "Board \<Rightarrow> Board" where
  "IncrementFixedCells b = b\<lparr>numFixedCells := numFixedCells b + 1\<rparr>"

definition IncrementInfeasible :: "Board \<Rightarrow> Board" where
  "IncrementInfeasible b = b\<lparr>numInfeasible := numInfeasible b + 1\<rparr>"

text \<open>
  What the constructor and \<open>Copy\<close> establish for every board: the sizes follow from
  the order and the array has \<open>numCells\<close> entries.  The index arguments of the
  functions below are meant inside the array; a read outside it is undefined in the
  source and left unspecified here, so the theorems speak about boards of this shape.
\<close>

definition board_shape :: "Board \<Rightarrow> bool" where
  "board_shape b =
     (numUnits b = order b * order b \<and> numCells b = numUnits b * numUnits b
        \<and> length (cells b) = numCells b)"

section \<open>Constraint propagation\<close>

text \<open>
  \<open>constraintpropagation.cpp\<close>.  The four functions call each other:
  \<open>SetCellAndPropagate\<close> calls \<open>PropagateConstraints\<close> on every peer, which calls
  the two rules, which call \<open>SetCellAndPropagate\<close> again.  The model gives
  \<open>SetCellAndPropagate\<close> a bound on the depth of these nested calls and hands it to
  the other three as the argument \<open>setprop\<close>; \<open>None\<close> means that the bound was
  reached.  The timers and the call counter of the source only measure and are left out.
\<close>

fun fold_option :: "('a \<Rightarrow> 'b \<Rightarrow> 'b option) \<Rightarrow> 'a list \<Rightarrow> 'b \<Rightarrow> 'b option" where
  "fold_option f [] s = Some s"
| "fold_option f (x # xs) s = (case f x s of None \<Rightarrow> None | Some s' \<Rightarrow> fold_option f xs s')"

text \<open>The first loop of \<open>Rule1_Elimination\<close>: the fixed values of the column, the row
  and the box of the cell, the cell itself left out.\<close>

definition Rule1_collect :: "Board \<Rightarrow> nat \<Rightarrow> ValueSet \<times> ValueSet \<times> ValueSet" where
  "Rule1_collect board cellIndex =
     (let numUnits = GetNumUnits board;
          iBox = BoxForCell board cellIndex;
          iCol = ColForCell board cellIndex;
          iRow = RowForCell board cellIndex
      in fold (\<lambda>j (colFixed, rowFixed, boxFixed).
           let k = BoxCell board iBox j;
               boxFixed = (if k \<noteq> cellIndex \<and> Fixed (GetCell board k)
                           then vs_plus boxFixed (GetCell board k) else boxFixed);
               k = ColCell board iCol j;
               colFixed = (if k \<noteq> cellIndex \<and> Fixed (GetCell board k)
                           then vs_plus colFixed (GetCell board k) else colFixed);
               k = RowCell board iRow j;
               rowFixed = (if k \<noteq> cellIndex \<and> Fixed (GetCell board k)
                           then vs_plus rowFixed (GetCell board k) else rowFixed)
           in (colFixed, rowFixed, boxFixed))
         [0..<numUnits] (Init numUnits, Init numUnits, Init numUnits))"

definition fixedCellsConstraint :: "Board \<Rightarrow> nat \<Rightarrow> ValueSet" where
  "fixedCellsConstraint board cellIndex =
     (case Rule1_collect board cellIndex of
        (colFixed, rowFixed, boxFixed) \<Rightarrow> vs_compl (vs_plus (vs_plus rowFixed colFixed) boxFixed))"

definition Rule1_Elimination ::
  "(Board \<Rightarrow> nat \<Rightarrow> ValueSet \<Rightarrow> Board option) \<Rightarrow> (ValueSet \<Rightarrow> ValueSet \<Rightarrow> ValueSet)
     \<Rightarrow> Board \<Rightarrow> nat \<Rightarrow> (Board \<times> bool) option" where
  "Rule1_Elimination setprop xr board cellIndex =
     (let cell = GetCell board cellIndex in
      if Empty cell \<or> Fixed cell then Some (board, False)
      else let fcc = fixedCellsConstraint board cellIndex in
        if Fixed fcc
        then (case setprop board cellIndex fcc of
                None \<Rightarrow> None
              | Some board' \<Rightarrow> Some (board', True))
        else Some (SetCellDirect board cellIndex (xr (GetCell board cellIndex) fcc), False))"

text \<open>The loop of \<open>Rule2_HiddenSingle\<close>: all candidates of the column, the row and the
  box of the cell, the cell itself left out.\<close>

definition Rule2_collect :: "Board \<Rightarrow> nat \<Rightarrow> ValueSet \<times> ValueSet \<times> ValueSet" where
  "Rule2_collect board cellIndex =
     (let numUnits = GetNumUnits board;
          iBox = BoxForCell board cellIndex;
          iCol = ColForCell board cellIndex;
          iRow = RowForCell board cellIndex
      in fold (\<lambda>j (colAll, rowAll, boxAll).
           let k = BoxCell board iBox j;
               boxAll = (if k \<noteq> cellIndex then vs_plus boxAll (GetCell board k) else boxAll);
               k = ColCell board iCol j;
               colAll = (if k \<noteq> cellIndex then vs_plus colAll (GetCell board k) else colAll);
               k = RowCell board iRow j;
               rowAll = (if k \<noteq> cellIndex then vs_plus rowAll (GetCell board k) else rowAll)
           in (colAll, rowAll, boxAll))
         [0..<numUnits] (Init numUnits, Init numUnits, Init numUnits))"

definition Rule2_HiddenSingle ::
  "(Board \<Rightarrow> nat \<Rightarrow> ValueSet \<Rightarrow> Board option) \<Rightarrow> Board \<Rightarrow> nat \<Rightarrow> (Board \<times> bool) option" where
  "Rule2_HiddenSingle setprop board cellIndex =
     (let cell = GetCell board cellIndex in
      if Empty cell \<or> Fixed cell then Some (board, False)
      else (case Rule2_collect board cellIndex of (colAll, rowAll, boxAll) \<Rightarrow>
        if Fixed (vs_minus cell rowAll)
          then map_option (\<lambda>b. (b, True)) (setprop board cellIndex (vs_minus cell rowAll))
        else if Fixed (vs_minus cell colAll)
          then map_option (\<lambda>b. (b, True)) (setprop board cellIndex (vs_minus cell colAll))
        else if Fixed (vs_minus cell boxAll)
          then map_option (\<lambda>b. (b, True)) (setprop board cellIndex (vs_minus cell boxAll))
        else Some (board, False)))"

definition PropagateConstraints ::
  "(Board \<Rightarrow> nat \<Rightarrow> ValueSet \<Rightarrow> Board option) \<Rightarrow> (ValueSet \<Rightarrow> ValueSet \<Rightarrow> ValueSet)
     \<Rightarrow> Board \<Rightarrow> nat \<Rightarrow> Board option" where
  "PropagateConstraints setprop xr board cellIndex =
     (let cell = GetCell board cellIndex in
      if Empty cell \<or> Fixed cell then Some board
      else (case Rule1_Elimination setprop xr board cellIndex of
              None \<Rightarrow> None
            | Some (board1, True) \<Rightarrow> Some board1
            | Some (board1, False) \<Rightarrow>
               (case Rule2_HiddenSingle setprop board1 cellIndex of
                  None \<Rightarrow> None
                | Some (board2, r) \<Rightarrow>
                    Some (if Empty (GetCell board2 cellIndex)
                          then IncrementInfeasible board2 else board2))))"

text \<open>One round of the loop of \<open>SetCellAndPropagate\<close>: the box peer, the column peer
  and the row peer number \<open>j\<close>, in this order, each unless it is the cell itself.\<close>

definition propagate_unless_self ::
  "(Board \<Rightarrow> nat \<Rightarrow> ValueSet \<Rightarrow> Board option) \<Rightarrow> (ValueSet \<Rightarrow> ValueSet \<Rightarrow> ValueSet)
     \<Rightarrow> nat \<Rightarrow> Board \<Rightarrow> nat \<Rightarrow> Board option" where
  "propagate_unless_self setprop xr cellIndex board k =
     (if k \<noteq> cellIndex then PropagateConstraints setprop xr board k else Some board)"

definition propagate_peers ::
  "(Board \<Rightarrow> nat \<Rightarrow> ValueSet \<Rightarrow> Board option) \<Rightarrow> (ValueSet \<Rightarrow> ValueSet \<Rightarrow> ValueSet)
     \<Rightarrow> nat \<Rightarrow> nat \<Rightarrow> nat \<Rightarrow> nat \<Rightarrow> nat \<Rightarrow> Board \<Rightarrow> Board option" where
  "propagate_peers setprop xr cellIndex iBox iCol iRow j board =
     (case propagate_unless_self setprop xr cellIndex board (BoxCell board iBox j) of
        None \<Rightarrow> None
      | Some board \<Rightarrow>
         (case propagate_unless_self setprop xr cellIndex board (ColCell board iCol j) of
            None \<Rightarrow> None
          | Some board \<Rightarrow>
              propagate_unless_self setprop xr cellIndex board (RowCell board iRow j)))"

primrec SetCellAndPropagate ::
  "nat \<Rightarrow> (ValueSet \<Rightarrow> ValueSet \<Rightarrow> ValueSet) \<Rightarrow> Board \<Rightarrow> nat \<Rightarrow> ValueSet \<Rightarrow> Board option" where
  "SetCellAndPropagate 0 xr board cellIndex val = None"
| "SetCellAndPropagate (Suc depth) xr board cellIndex val =
     (if Fixed (GetCell board cellIndex) then Some board
      else
        let board1 = IncrementFixedCells (SetCellDirect board cellIndex val);
            numUnits = GetNumUnits board1;
            iBox = BoxForCell board1 cellIndex;
            iCol = ColForCell board1 cellIndex;
            iRow = RowForCell board1 cellIndex
        in fold_option
             (propagate_peers (SetCellAndPropagate depth xr) xr cellIndex iBox iCol iRow)
             [0..<numUnits] board1)"

section \<open>Checking a solution\<close>

text \<open>\<open>Board::CheckSolution\<close>: three loops set two flags.  The board the method is
  called on is \<open>this\<close>, the candidate solution is \<open>other\<close>; the rows, columns and
  boxes of \<open>other\<close> are read through the index helpers of \<open>this\<close>.\<close>

definition CheckSolution :: "Board \<Rightarrow> Board \<Rightarrow> bool" where
  "CheckSolution this other =
     (if CellCount other \<noteq> CellCount this then False
      else
        let isSolution =
              fold (\<lambda>i isSolution. if \<not> Fixed (GetCell other i) then False else isSolution)
                [0..<CellCount other] True;
            isSolution =
              fold (\<lambda>i isSolution.
                     case fold (\<lambda>j (row, col, box).
                                 (vs_plus row (GetCell other (RowCell this i j)),
                                  vs_plus col (GetCell other (ColCell this i j)),
                                  vs_plus box (GetCell other (BoxCell this i j))))
                            [0..<numUnits this]
                            (Init (numUnits this), Init (numUnits this), Init (numUnits this)) of
                       (row, col, box) \<Rightarrow>
                         if Count row \<noteq> numUnits this \<or> Count col \<noteq> numUnits this
                              \<or> Count box \<noteq> numUnits this
                         then False else isSolution)
                [0..<numUnits this] isSolution;
            isConsistent =
              fold (\<lambda>i isConsistent.
                     if Fixed (GetCell this i)
                     then (if Index (GetCell this i) \<noteq> Index (GetCell other i)
                           then False else isConsistent)
                     else isConsistent)
                [0..<CellCount this] True
        in isSolution \<and> isConsistent)"

section \<open>Building a board from a puzzle string\<close>

text \<open>
  The constructor \<open>Board(const string&)\<close>: the order from the length of the string,
  every cell the full universe, then \<open>SetCellAndPropagate\<close> for every character that
  is not a dot, in index order.  \<open>depth\<close> is the bound handed to
  \<open>SetCellAndPropagate\<close>.
\<close>

definition order_of_length :: "nat \<Rightarrow> nat" where
  "order_of_length n =
     (if n = 81 then 3 else if n = 256 then 4 else if n = 625 then 5
      else if n = 1296 then 6 else if n = 2401 then 7 else if n = 4096 then 8 else 0)"

definition cell_value :: "nat \<Rightarrow> char \<Rightarrow> int" where
  "cell_value ord c =
     (if ord = 3 then of_char c - of_char CHR ''0''
      else if ord = 4
        then (if of_char CHR ''0'' \<le> (of_char c :: int) \<and> (of_char c :: int) \<le> of_char CHR ''9''
              then 1 + (of_char c - of_char CHR ''0'')
              else 11 + (of_char c - of_char CHR ''a''))
      else 1 + (of_char c - of_char CHR ''a''))"

text \<open>
  Modelled from the spec: the constructor \<open>ValueSet(maxVal, bits)\<close> of the missing
  \<open>valueset.h\<close>, at the one argument the sources pass, \<open>(int64_t)1 << (value - 1)\<close>.
  The shift is defined for \<open>value\<close> from 1 to 64 only; the bit is kept when it lies
  inside the universe (the spec: bits with index \<ge> max are always zero).
\<close>

definition digit_set :: "nat \<Rightarrow> int \<Rightarrow> ValueSet option" where
  "digit_set m v =
     (if 1 \<le> v \<and> v \<le> 64
      then Some \<lparr>maxVal = m, members = (if nat (v - 1) < m then {nat (v - 1)} else {})\<rparr>
      else None)"

definition Board_of_string ::
  "nat \<Rightarrow> (ValueSet \<Rightarrow> ValueSet \<Rightarrow> ValueSet) \<Rightarrow> string \<Rightarrow> Board option" where
  "Board_of_string depth xr puzzleString =
     (let ord = order_of_length (length puzzleString);
          nUnits = ord * ord;
          nCells = nUnits * nUnits;
          maxVal = nUnits;
          board0 = \<lparr>order = ord, numUnits = nUnits, numCells = nCells,
                    cells = replicate nCells (vs_compl (Init maxVal)),
                    numFixedCells = 0, numInfeasible = 0\<rparr>
      in fold_option
           (\<lambda>i board.
              if puzzleString ! i \<noteq> CHR ''.''
              then (case digit_set maxVal (cell_value ord (puzzleString ! i)) of
                      None \<Rightarrow> None
                    | Some v \<Rightarrow> SetCellAndPropagate depth xr board i v)
              else Some board)
           [0..<nCells] board0)"

section \<open>Copying boards\<close>

text \<open>
  \<open>Board::Copy\<close> recomputes the sizes from the order of the other board and copies
  its first \<open>numCells\<close> cells and its two counters.  The array is modelled by these
  \<open>numCells\<close> entries.  \<open>default_board\<close> stands for a board made by \<open>Board()\<close>,
  whose fields \<open>Copy\<close> overwrites before anything reads them.
\<close>

definition Copy :: "Board \<Rightarrow> Board \<Rightarrow> Board" where
  "Copy this other =
     this\<lparr>order := order other,
          numUnits := order other * order other,
          numCells := (order other * order other) * (order other * order other),
          cells := map (GetCell other)
                     [0..<(order other * order other) * (order other * order other)],
          numFixedCells := FixedCellCount other,
          numInfeasible := InfeasibleCellCount other\<rparr>"

definition default_board :: Board where
  "default_board =
     \<lparr>order = 0, numUnits = 0, numCells = 0, cells = [], numFixedCells = 0, numInfeasible = 0\<rparr>"

section \<open>Colonies and their pheromone\<close>

text \<open>
  \<open>class SudokuAntSystem\<close> (\<open>sudokuantsystem.cpp\<close>) and \<open>class SubColony\<close>
  (\<open>parallelsudokuantsystem.h\<close>), without the random generator and the timer.  The
  fields that both classes have are the record \<open>AntColony\<close>, which is the state of a
  \<open>SudokuAntSystem\<close>; a \<open>SubColony\<close> extends it.  The pheromone values are \<open>float\<close>s;
  the model leaves their type \<open>'f\<close> and its arithmetic open (any type with \<open>0\<close>, \<open>1\<close>,
  \<open>+\<close>, \<open>-\<close>, \<open>*\<close>, \<open>/\<close> and an order), and takes the conversion \<open>(float)\<close> from
  \<open>int\<close> as the parameter \<open>cvt\<close>, so nothing proved below rests on a law of real
  arithmetic that \<open>float\<close> lacks.  The matrix \<open>float **pher\<close> is a function of the
  cell and the digit position.  The scores are counts of cells and never negative.
\<close>

record 'f AntColony =
  rho :: 'f
  pher0 :: 'f
  bestEvap :: 'f
  bestPher :: 'f
  bestSol :: Board
  pher :: "nat \<Rightarrow> nat \<Rightarrow> 'f"
  numCells' :: nat

record 'f SubColony = "'f AntColony" +
  iterationBest :: Board
  receivedIterationBest :: Board
  receivedBestSol :: Board
  iterationBestScore :: nat
  bestSolScore :: nat
  receivedIterationBestScore :: nat
  receivedBestSolScore :: nat
  numUnits' :: nat

text \<open>\<open>PherAdd\<close> is the same in \<open>SudokuAntSystem\<close> and in \<open>SubColony\<close>:
  \<open>numCells / (float)(numCells - numCellsFixed)\<close>.  The divisor is computed in \<open>int\<close> and
  then converted.\<close>

definition PherAdd_divisor :: "nat \<Rightarrow> int \<Rightarrow> int" where
  "PherAdd_divisor nCells numCellsFixed = int nCells - numCellsFixed"

definition PherAdd :: "(int \<Rightarrow> 'f) \<Rightarrow> nat \<Rightarrow> int \<Rightarrow> 'f::divide" where
  "PherAdd cvt nCells numCellsFixed =
     cvt (int nCells) div cvt (PherAdd_divisor nCells numCellsFixed)"

definition UpdatePheromone ::
  "('f::{one,plus,minus,times}, 'm) AntColony_scheme \<Rightarrow> ('f, 'm) AntColony_scheme" where
  "UpdatePheromone c =
     fold (\<lambda>i c.
            if Fixed (GetCell (bestSol c) i)
            then c\<lparr>pher := (pher c)(i := (pher c i)(Index (GetCell (bestSol c) i) :=
                     pher c i (Index (GetCell (bestSol c) i)) * (1 - rho c) + rho c * bestPher c))\<rparr>
            else c)
       [0..<numCells' c] c"

text \<open>The decay \<open>bestPher *= (1.0f - bestEvap)\<close> that follows the global update.\<close>

definition decay_bestPher ::
  "('f::{one,minus,times}, 'm) AntColony_scheme \<Rightarrow> ('f, 'm) AntColony_scheme" where
  "decay_bestPher c = c\<lparr>bestPher := bestPher c * (1 - bestEvap c)\<rparr>"

text \<open>
  One cell of \<open>UpdatePheromoneWithCommunication\<close>: the two scratch arrays are cleared,
  the three sources add their deposits, and the digits that received one are updated.
\<close>

definition add_source ::
  "bool \<Rightarrow> ValueSet \<Rightarrow> 'f \<Rightarrow> (nat \<Rightarrow> 'f) \<times> (nat \<Rightarrow> bool) \<Rightarrow> (nat \<Rightarrow> 'f::plus) \<times> (nat \<Rightarrow> bool)" where
  "add_source positive cell pherValue ch =
     (case ch of (contributions, hasContribution) \<Rightarrow>
        if positive \<and> Fixed cell
        then (let digit = Index cell
              in (contributions(digit := contributions digit + pherValue),
                  hasContribution(digit := True)))
        else (contributions, hasContribution))"

definition collect_contributions ::
  "(int \<Rightarrow> 'f) \<Rightarrow> 'f SubColony \<Rightarrow> nat \<Rightarrow> (nat \<Rightarrow> 'f::{zero,plus,divide}) \<times> (nat \<Rightarrow> bool)" where
  "collect_contributions cvt c i =
     (let pherValue1 = (if iterationBestScore c > 0
                        then PherAdd cvt (numCells' c) (int (iterationBestScore c)) else 0);
          pherValue2 = (if receivedIterationBestScore c > 0
                        then PherAdd cvt (numCells' c) (int (receivedIterationBestScore c))
                        else 0);
          pherValue3 = (if receivedBestSolScore c > 0
                        then PherAdd cvt (numCells' c) (int (receivedBestSolScore c)) else 0)
      in add_source (receivedBestSolScore c > 0) (GetCell (receivedBestSol c) i) pherValue3
           (add_source (receivedIterationBestScore c > 0)
              (GetCell (receivedIterationBest c) i) pherValue2
              (add_source (iterationBestScore c > 0) (GetCell (iterationBest c) i) pherValue1
                 (\<lambda>j. 0, \<lambda>j. False))))"

definition UpdatePheromoneWithCommunication ::
  "(int \<Rightarrow> 'f) \<Rightarrow> ('f::{zero,one,plus,minus,times,divide}) SubColony \<Rightarrow> 'f SubColony" where
  "UpdatePheromoneWithCommunication cvt c =
     fold (\<lambda>i c.
            case collect_contributions cvt c i of (contributions, hasContribution) \<Rightarrow>
              fold (\<lambda>j c.
                     if hasContribution j
                     then c\<lparr>pher := (pher c)(i := (pher c i)(j :=
                              pher c i j * (1 - rho c) + rho c * contributions j))\<rparr>
                     else c)
                [0..<numUnits' c] c)
       [0..<numCells' c] c"

definition ReceiveIterationBest :: "'f SubColony \<Rightarrow> Board \<Rightarrow> 'f SubColony" where
  "ReceiveIterationBest c solution =
     c\<lparr>receivedIterationBest := Copy (receivedIterationBest c) solution,
       receivedIterationBestScore := FixedCellCount solution\<rparr>"

definition ReceiveBestSol :: "'f SubColony \<Rightarrow> Board \<Rightarrow> 'f SubColony" where
  "ReceiveBestSol c solution =
     c\<lparr>receivedBestSol := Copy (receivedBestSol c) solution,
       receivedBestSolScore := FixedCellCount solution\<rparr>"

text \<open>
  The three sources of the communication update as the claim names them: a source
  endorses digit position \<open>j\<close> at cell \<open>i\<close> when its score is positive and its board has
  \<open>j\<close> fixed at \<open>i\<close>; the deposit of a digit is the sum of the \<open>PherAdd\<close> values of its
  endorsing sources, added from 0 in the order local, ring, random.
\<close>

definition sources :: "'f SubColony \<Rightarrow> (nat \<times> Board) list" where
  "sources c =
     [(iterationBestScore c, iterationBest c),
      (receivedIterationBestScore c, receivedIterationBest c),
      (receivedBestSolScore c, receivedBestSol c)]"

definition endorses :: "nat \<Rightarrow> nat \<Rightarrow> nat \<times> Board \<Rightarrow> bool" where
  "endorses i j src =
     (fst src > 0 \<and> Fixed (GetCell (snd src) i) \<and> Index (GetCell (snd src) i) = j)"

definition deposit_sum ::
  "(int \<Rightarrow> 'f) \<Rightarrow> 'f SubColony \<Rightarrow> nat \<Rightarrow> nat \<Rightarrow> 'f::{zero,plus,divide}" where
  "deposit_sum cvt c i j =
     foldl (\<lambda>acc src. acc + PherAdd cvt (numCells' c) (int (fst src))) 0
       (filter (endorses i j) (sources c))"

section \<open>One iteration of the single colony\<close>

text \<open>
  \<open>class SudokuAnt\<close> of \<open>sudokuant.h\<close>; its construction steps (\<open>sudokuant.cpp\<close>) are
  not among the sources, so an iteration of \<open>SudokuAntSystem::Solve\<close> is modelled from
  the point where the ants have finished: the search for the iteration-best ant, the
  reinforcement value, the best-so-far update, the global update and the decay.  The
  iteration counter and the timer are left out.
\<close>

record SudokuAnt =
  sol :: Board
  failCells :: nat

definition NumCellsFilled :: "SudokuAnt \<Rightarrow> int" where
  "NumCellsFilled a = int (CellCount (sol a)) - int (failCells a)"

definition find_iteration_best :: "SudokuAnt list \<Rightarrow> nat \<times> int" where
  "find_iteration_best antList =
     fold (\<lambda>i (iBest, bestVal).
            if NumCellsFilled (antList ! i) > bestVal
            then (i, NumCellsFilled (antList ! i)) else (iBest, bestVal))
       [0..<length antList] (0, 0)"

definition Solve_iteration ::
  "(int \<Rightarrow> 'f) \<Rightarrow> SudokuAnt list \<Rightarrow> ('f::{one,plus,minus,times,divide,ord}) AntColony \<times> bool
     \<Rightarrow> 'f AntColony \<times> bool" where
  "Solve_iteration cvt antList st =
     (case st of (s, solved) \<Rightarrow>
      case find_iteration_best antList of (iBest, bestVal) \<Rightarrow>
        let pherToAdd = PherAdd cvt (numCells' s) bestVal;
            (s, solved) =
              (if pherToAdd > bestPher s
               then (s\<lparr>bestSol := Copy (bestSol s) (sol (antList ! iBest)),
                       bestPher := pherToAdd\<rparr>,
                     if bestVal = int (numCells' s) then True else solved)
               else (s, solved))
        in (decay_bestPher (UpdatePheromone s), solved))"

section \<open>The coordinator: schedule and exchanges\<close>

text \<open>
  \<open>ParallelSudokuAntSystem\<close>.  The vector \<open>subColonies\<close> is a list and
  \<open>numSubColonies\<close> is its length, as the constructor makes it.  The threads, the
  barrier and the timer are not modelled: the exchanges are the two functions the
  master thread runs while the others wait, and the effect of the barrier on one
  colony (its two received slots) is the parameter \<open>sync\<close> of \<open>pheromone_step\<close>.
\<close>

definition CommunicateRingTopology :: "'f SubColony list \<Rightarrow> 'f SubColony list" where
  "CommunicateRingTopology subColonies =
     (let numSubColonies = length subColonies;
          iterationBests =
            map (\<lambda>i. Copy default_board (iterationBest (subColonies ! i))) [0..<numSubColonies]
      in fold (\<lambda>i cs.
                let nextId = (i + 1) mod numSubColonies
                in cs[nextId := ReceiveIterationBest (cs ! nextId) (iterationBests ! i)])
           [0..<numSubColonies] subColonies)"

definition CommunicateRandomTopology :: "'f SubColony list \<Rightarrow> nat list \<Rightarrow> 'f SubColony list" where
  "CommunicateRandomTopology subColonies matchArray =
     (let numSubColonies = length subColonies;
          bestSols = map (\<lambda>i. Copy default_board (bestSol (subColonies ! i))) [0..<numSubColonies]
      in fold (\<lambda>i cs.
                let colonyId = matchArray ! i;
                    fromPos = (i + numSubColonies - 1) mod numSubColonies;
                    fromColonyId = matchArray ! fromPos
                in cs[colonyId := ReceiveBestSol (cs ! colonyId) (bestSols ! fromColonyId)])
           [0..<numSubColonies] subColonies)"



section \<open>Notions the claims use\<close>

text \<open>The operations of constraint propagation, to speak about sequences of them.\<close>

datatype cp_op = OpRule1 nat | OpRule2 nat | OpPropagate nat | OpSetCell nat ValueSet

fun apply_cp_op ::
  "nat \<Rightarrow> (ValueSet \<Rightarrow> ValueSet \<Rightarrow> ValueSet) \<Rightarrow> cp_op \<Rightarrow> Board \<Rightarrow> Board option" where
  "apply_cp_op depth xr (OpRule1 i) board =
     map_option fst (Rule1_Elimination (SetCellAndPropagate depth xr) xr board i)"
| "apply_cp_op depth xr (OpRule2 i) board =
     map_option fst (Rule2_HiddenSingle (SetCellAndPropagate depth xr) board i)"
| "apply_cp_op depth xr (OpPropagate i) board =
     PropagateConstraints (SetCellAndPropagate depth xr) xr board i"
| "apply_cp_op depth xr (OpSetCell i v) board = SetCellAndPropagate depth xr board i v"

definition run_cp_ops ::
  "nat \<Rightarrow> (ValueSet \<Rightarrow> ValueSet \<Rightarrow> ValueSet) \<Rightarrow> cp_op list \<Rightarrow> Board \<Rightarrow> Board option" where
  "run_cp_ops depth xr ops board = fold_option (apply_cp_op depth xr) ops board"

text \<open>The cell an operation is called on.\<close>

fun op_cell :: "cp_op \<Rightarrow> nat" where
  "op_cell (OpRule1 i) = i"
| "op_cell (OpRule2 i) = i"
| "op_cell (OpPropagate i) = i"
| "op_cell (OpSetCell i v) = i"

text \<open>The cells that share the row, the column or the box of cell \<open>i\<close>, as
  \<open>Rule1_Elimination\<close> enumerates them with the index helpers; the values fixed in
  them (the set F of Rule 1); and the complement of F in the universe of the board.\<close>

definition unit_peers :: "Board \<Rightarrow> nat \<Rightarrow> nat set" where
  "unit_peers b i =
     (BoxCell b (BoxForCell b i) ` {0..<numUnits b}
        \<union> ColCell b (ColForCell b i) ` {0..<numUnits b}
        \<union> RowCell b (RowForCell b i) ` {0..<numUnits b}) - {i}"

definition fixed_peer_values :: "Board \<Rightarrow> nat \<Rightarrow> nat set" where
  "fixed_peer_values b i =
     (\<Union>k \<in> {k \<in> unit_peers b i. Fixed (GetCell b k)}. members (GetCell b k))"

definition not_fixed_values :: "Board \<Rightarrow> nat \<Rightarrow> ValueSet" where
  "not_fixed_values b i =
     \<lparr>maxVal = numUnits b, members = {0..<numUnits b} - fixed_peer_values b i\<rparr>"

text \<open>The set F of Rule 1 as a value of the class; \<open>vs_minus c (fixed_values b i)\<close>
  is the cell without F.\<close>

definition fixed_values :: "Board \<Rightarrow> nat \<Rightarrow> ValueSet" where
  "fixed_values b i = \<lparr>maxVal = numUnits b, members = fixed_peer_values b i\<rparr>"

text \<open>
  The boards that the program builds.  Every cell starts with the full universe, a cell
  becomes fixed through \<open>SetCellAndPropagate\<close> only, and a cell that is not fixed loses
  digits through Rule 1 only, which removes the digits fixed in its peers.  So the
  cells are sets over the universe of the board, and a cell that is not fixed lacks
  only digits that are fixed in one of its peers.
\<close>

definition cp_invariant :: "Board \<Rightarrow> bool" where
  "cp_invariant b =
     (board_shape b
      \<and> (\<forall>i \<in> {0..<numCells b}.
            maxVal (GetCell b i) = numUnits b
            \<and> members (GetCell b i) \<subseteq> {0..<numUnits b}
            \<and> (Fixed (GetCell b i)
                 \<or> {0..<numUnits b} - members (GetCell b i) \<subseteq> fixed_peer_values b i)))"

text \<open>A value that the program hands to \<open>SetCellAndPropagate\<close>: one digit of the
  universe of the board (the constructor passes the digit of a given, the two rules a
  set they have found fixed).  An operation of a sequence is called on a cell of the
  board, \<open>SetCellAndPropagate\<close> with such a value.\<close>

definition good_value :: "Board \<Rightarrow> ValueSet \<Rightarrow> bool" where
  "good_value b v = (Fixed v \<and> maxVal v = numUnits b \<and> members v \<subseteq> {0..<numUnits b})"

fun good_op :: "Board \<Rightarrow> cp_op \<Rightarrow> bool" where
  "good_op b (OpSetCell i v) = (i < numCells b \<and> good_value b v)"
| "good_op b op = (op_cell op < numCells b)"

text \<open>A call of \<open>SetCellAndPropagate\<close> that is given a candidate of its cell, or a cell
  already fixed; a sequence in which every such call is, each on the board it meets;
  and the cells that the calls of \<open>SetCellAndPropagate\<close> of a sequence name.\<close>

fun op_within :: "Board \<Rightarrow> cp_op \<Rightarrow> bool" where
  "op_within b (OpSetCell i v) =
     (Fixed (GetCell b i) \<or> members v \<subseteq> members (GetCell b i))"
| "op_within b op = True"

fun ops_within ::
  "nat \<Rightarrow> (ValueSet \<Rightarrow> ValueSet \<Rightarrow> ValueSet) \<Rightarrow> cp_op list \<Rightarrow> Board \<Rightarrow> bool" where
  "ops_within depth xr [] b = True"
| "ops_within depth xr (op # ops) b =
     (op_within b op
      \<and> (case apply_cp_op depth xr op b of
            None \<Rightarrow> True
          | Some b1 \<Rightarrow> ops_within depth xr ops b1))"

fun set_cells :: "cp_op list \<Rightarrow> nat set" where
  "set_cells [] = {}"
| "set_cells (OpSetCell i v # ops) = insert i (set_cells ops)"
| "set_cells (op # ops) = set_cells ops"

text \<open>
  A complete board, the digit (1 to N) of a fixed cell, a unit that holds every digit
  once, and agreement of a solution with the fixed cells of a board and with the
  characters of a puzzle string.  \<open>cells_in_range\<close> is the invariant of \<open>ValueSet\<close>
  that no bit lies outside the universe.
\<close>

definition complete :: "Board \<Rightarrow> bool" where
  "complete X = (\<forall>i \<in> {0..<numCells X}. Fixed (GetCell X i))"

definition digit_at :: "Board \<Rightarrow> nat \<Rightarrow> nat" where
  "digit_at X k = Index (GetCell X k) + 1"

definition is_permutation_unit :: "Board \<Rightarrow> (nat \<Rightarrow> nat) \<Rightarrow> bool" where
  "is_permutation_unit X f =
     (mset (map (\<lambda>j. digit_at X (f j)) [0..<numUnits X]) = mset [1..<numUnits X + 1])"

definition valid_units :: "Board \<Rightarrow> bool" where
  "valid_units X =
     (\<forall>u \<in> {0..<numUnits X}.
        is_permutation_unit X (RowCell X u) \<and> is_permutation_unit X (ColCell X u)
          \<and> is_permutation_unit X (BoxCell X u))"

definition agrees_with_fixed :: "Board \<Rightarrow> Board \<Rightarrow> bool" where
  "agrees_with_fixed P X =
     (\<forall>i \<in> {0..<numCells P}. Fixed (GetCell P i) \<longrightarrow> digit_at P i = digit_at X i)"

definition cells_in_range :: "Board \<Rightarrow> bool" where
  "cells_in_range X = (\<forall>c \<in> set (cells X). members c \<subseteq> {0..<numUnits X})"

definition givens_agree :: "string \<Rightarrow> Board \<Rightarrow> bool" where
  "givens_agree S X =
     (\<forall>i \<in> {0..<length S}.
        S ! i \<noteq> CHR ''.'' \<longrightarrow>
          Fixed (GetCell X i) \<and> int (digit_at X i) = cell_value (order X) (S ! i))"

section \<open>Notions the proofs use\<close>

text \<open>\<open>keeps_fixed b b'\<close>: the shape of the board is the same, the counter of fixed
  cells has not gone down, and every cell that was fixed has kept its value.\<close>

definition keeps_fixed :: "Board \<Rightarrow> Board \<Rightarrow> bool" where
  "keeps_fixed b b' =
     (numFixedCells b \<le> numFixedCells b' \<and> order b' = order b \<and> numUnits b' = numUnits b
        \<and> numCells b' = numCells b \<and> length (cells b') = length (cells b)
        \<and> (\<forall>j. Fixed (GetCell b j) \<longrightarrow> GetCell b' j = GetCell b j))"

text \<open>The number of cells that are not fixed: the measure that bounds the depth of
  the recursion of \<open>SetCellAndPropagate\<close>, which fixes one more cell at every level.\<close>

definition unfixed :: "Board \<Rightarrow> nat" where
  "unfixed b = length (filter (\<lambda>c. \<not> Fixed c) (cells b))"

text \<open>A board of the right shape with at most \<open>m\<close> cells to fix; a function in the place
  of \<open>SetCellAndPropagate\<close> that returns on every such board and keeps the fixed cells;
  and the order of two such functions where the second returns whatever the first
  does.\<close>

definition shape_within :: "nat \<Rightarrow> Board \<Rightarrow> bool" where
  "shape_within m b = (board_shape b \<and> unfixed b \<le> m)"

definition total_on :: "nat \<Rightarrow> (Board \<Rightarrow> nat \<Rightarrow> ValueSet \<Rightarrow> Board option) \<Rightarrow> bool" where
  "total_on m setprop =
     ((\<forall>b i v. shape_within m b \<longrightarrow> i < numCells b \<longrightarrow> Fixed v \<longrightarrow> setprop b i v \<noteq> None)
      \<and> (\<forall>b i v b'. setprop b i v = Some b' \<longrightarrow> keeps_fixed b b'))"

definition le_sp ::
  "(Board \<Rightarrow> nat \<Rightarrow> ValueSet \<Rightarrow> Board option) \<Rightarrow> (Board \<Rightarrow> nat \<Rightarrow> ValueSet \<Rightarrow> Board option) \<Rightarrow> bool"
  where "le_sp sp sp' = (\<forall>b i v r. sp b i v = Some r \<longrightarrow> sp' b i v = Some r)"

text \<open>The values that the loops of \<open>Rule1_Elimination\<close> and of \<open>CheckSolution\<close> have
  collected from the cells \<open>f j\<close>, \<open>j\<close> in \<open>J\<close>.\<close>

definition fixed_of :: "Board \<Rightarrow> nat \<Rightarrow> (nat \<Rightarrow> nat) \<Rightarrow> nat set \<Rightarrow> nat set" where
  "fixed_of b i f J =
     (\<Union>j \<in> J. if f j \<noteq> i \<and> Fixed (GetCell b (f j)) then members (GetCell b (f j)) else {})"

definition all_of :: "Board \<Rightarrow> (nat \<Rightarrow> nat) \<Rightarrow> nat set \<Rightarrow> nat set" where
  "all_of X f J = (\<Union>j \<in> J. members (GetCell X (f j)))"

text \<open>The inner and the outer loop of \<open>UpdatePheromoneWithCommunication\<close> as functions
  of the pheromone matrix alone.\<close>

definition row_step ::
  "'f \<Rightarrow> (nat \<Rightarrow> bool) \<Rightarrow> (nat \<Rightarrow> 'f) \<Rightarrow> nat \<Rightarrow> nat list \<Rightarrow> (nat \<Rightarrow> nat \<Rightarrow> 'f) \<Rightarrow> (nat \<Rightarrow> nat \<Rightarrow> 'f::{one,plus,minus,times})" where
  "row_step r h k i js p =
     fold (\<lambda>j p. if h j then p(i := (p i)(j := p i j * (1 - r) + r * k j)) else p) js p"

definition matrix_step ::
  "(int \<Rightarrow> 'f) \<Rightarrow> 'f SubColony \<Rightarrow> nat list \<Rightarrow> (nat \<Rightarrow> nat \<Rightarrow> 'f) \<Rightarrow> (nat \<Rightarrow> nat \<Rightarrow> 'f::{zero,one,plus,minus,times,divide})" where
  "matrix_step cvt c is p =
     fold (\<lambda>i p. row_step (rho c) (\<lambda>j. filter (endorses i j) (sources c) \<noteq> [])
                    (deposit_sum cvt c i) i [0..<numUnits' c] p) is p"

text \<open>\<open>refines_except T b b'\<close>: the fixed cells are kept, the new board satisfies the
  invariant, and outside \<open>T\<close> no cell has gained a digit; a function in the place of
  \<open>SetCellAndPropagate\<close> that refines every board when it is given a candidate of the
  cell.\<close>

definition refines_except :: "nat set \<Rightarrow> Board \<Rightarrow> Board \<Rightarrow> bool" where
  "refines_except T b b' =
     (keeps_fixed b b' \<and> cp_invariant b'
      \<and> (\<forall>j \<in> {0..<numCells b} - T. members (GetCell b' j) \<subseteq> members (GetCell b j)))"

definition sp_refines :: "(Board \<Rightarrow> nat \<Rightarrow> ValueSet \<Rightarrow> Board option) \<Rightarrow> bool" where
  "sp_refines sp =
     (\<forall>b i v b'. cp_invariant b \<longrightarrow> i < numCells b \<longrightarrow> good_value b v
        \<longrightarrow> members v \<subseteq> members (GetCell b i) \<longrightarrow> sp b i v = Some b'
        \<longrightarrow> refines_except {} b b')"

section \<open>Example data\<close>

text \<open>
  Boards of order 3 and colonies over the rationals, used where a theorem is applied
  to a concrete input.  \<open>solved9\<close> is the grid whose row \<open>r\<close> and column \<open>c\<close> hold the
  digit \<open>(3 (r mod 3) + r div 3 + c) mod 9 + 1\<close>.
\<close>

definition full9 :: ValueSet where
  "full9 = \<lparr>maxVal = 9, members = {0..<9}\<rparr>"

definition none9 :: ValueSet where
  "none9 = \<lparr>maxVal = 9, members = {}\<rparr>"

definition single9 :: "nat \<Rightarrow> ValueSet" where
  "single9 d = \<lparr>maxVal = 9, members = {d}\<rparr>"

definition board9 :: "ValueSet list \<Rightarrow> nat \<Rightarrow> Board" where
  "board9 cs n =
     \<lparr>order = 3, numUnits = 9, numCells = 81, cells = cs, numFixedCells = n, numInfeasible = 0\<rparr>"

definition blank9 :: Board where
  "blank9 = board9 (replicate 81 full9) 0"

definition solved9 :: Board where
  "solved9 =
     board9 (map (\<lambda>i. single9 ((3 * ((i div 9) mod 3) + (i div 9) div 3 + i mod 9) mod 9))
               [0..<81]) 81"

definition colony9 :: "Board \<Rightarrow> nat \<Rightarrow> Board \<Rightarrow> nat \<Rightarrow> rat SubColony" where
  "colony9 ib ibs bs bss =
     \<lparr>rho = 9 / 10, pher0 = 1 / 81, bestEvap = 1 / 200, bestPher = 0, bestSol = bs,
      pher = (\<lambda>i j. 1 / 81), numCells' = 81,
      iterationBest = ib, receivedIterationBest = blank9, receivedBestSol = blank9,
      iterationBestScore = ibs, bestSolScore = bss,
      receivedIterationBestScore = 0, receivedBestSolScore = 0, numUnits' = 9\<rparr>"

definition colonies3 :: "rat SubColony list" where
  "colonies3 =
     [colony9 blank9 0 blank9 0, colony9 solved9 81 solved9 81, colony9 blank9 0 solved9 81]"

definition two9 :: Board where
  "two9 = board9 ((cells solved9)[0 := full9, 1 := full9]) 79"

definition first_given9 :: Board where
  "first_given9 = IncrementFixedCells (SetCellDirect blank9 0 (single9 0))"

definition puzzle_two_ones :: string where
  "puzzle_two_ones = ''11'' @ replicate 79 CHR ''.''"

definition puzzle_row :: string where
  "puzzle_row = ''123456781'' @ replicate 72 CHR ''.''"

definition puzzle_one :: string where
  "puzzle_one = ''1'' @ replicate 80 CHR ''.''"

section \<open>The communication schedule\<close>



section \<open>The exchanges between the colonies\<close>

text \<open>A loop that writes position \<open>t i\<close> of a list in round \<open>i\<close>, reading only that
  position, leaves every position with the value of the one round that wrote it, when
  no two rounds write the same position.\<close>

lemma fold_upd_length:
  "length (fold (\<lambda>i cs. cs[t i := g i (cs ! t i)]) js cs) = length cs"
  by (induction js arbitrary: cs) auto

lemma fold_upd_other:
  "k \<notin> t ` set js \<Longrightarrow> fold (\<lambda>i cs. cs[t i := g i (cs ! t i)]) js cs ! k = cs ! k"
  by (induction js arbitrary: cs) auto

lemma fold_upd_hit:
  "distinct (map t js) \<Longrightarrow> i \<in> set js \<Longrightarrow> t i < length cs
    \<Longrightarrow> fold (\<lambda>i cs. cs[t i := g i (cs ! t i)]) js cs ! t i = g i (cs ! t i)"
proof (induction js arbitrary: cs)
  case Nil
  then show ?case by simp
next
  case (Cons a js)
  show ?case
  proof (cases "i = a")
    case True
    from Cons.prems(1) have "t a \<notin> t ` set js" by auto
    then show ?thesis
      using Cons.prems(3) True by (simp add: fold_upd_other)
  next
    case False
    with Cons.prems have "i \<in> set js" by auto
    moreover from Cons.prems(1) have "t a \<notin> t ` set js" by auto
    ultimately have "t i \<noteq> t a" by (metis imageI)
    note \<open>i \<in> set js\<close> this
    with Cons.prems Cons.IH [of "cs[t a := g a (cs ! t a)]"] show ?thesis by simp
  qed
qed

lemma GetCell_fun: "GetCell b = (\<lambda>i. cells b ! i)"
  by (rule ext) (simp add: GetCell_def)

lemma map_nth_upto: "length xs = n \<Longrightarrow> map ((!) xs) [0..<n] = xs"
  using map_nth [of xs] by auto

lemma Copy_of_shape: "board_shape b \<Longrightarrow> Copy this b = b"
  by (cases b, cases this)
    (simp add: Copy_def board_shape_def GetCell_fun FixedCellCount_def InfeasibleCellCount_def
      map_nth_upto)

lemma distinct_ring: "distinct (map (\<lambda>i. (i + 1) mod n) [0..<n])"
proof -
  have "inj_on (\<lambda>i. (i + 1) mod n) {0..<n}"
  proof (rule inj_onI)
    fix x y assume xy: "x \<in> {0..<n}" "y \<in> {0..<n}" "(x + 1) mod n = (y + 1) mod n"
    show "x = y"
    proof (cases "x + 1 = n")
      case True
      with xy show ?thesis by (cases "y + 1 = n") auto
    next
      case False
      with xy show ?thesis by (cases "y + 1 = n") auto
    qed
  qed
  then show ?thesis by (simp add: distinct_map)
qed

text \<open>
  C7.  After the ring exchange over \<open>n\<close> colonies, colony \<open>(i + 1) mod n\<close> holds in its
  slot \<open>receivedIterationBest\<close> the board that colony \<open>i\<close> had as \<open>iterationBest\<close>
  before the exchange, and in \<open>receivedIterationBestScore\<close> the fixed-cell count of
  that board.  The boards delivered are the snapshot taken from the colonies as they
  were before the first delivery.
\<close>

theorem ring_exchange_delivers:
  assumes "i < length subColonies" and "board_shape (iterationBest (subColonies ! i))"
  shows "receivedIterationBest
           (CommunicateRingTopology subColonies ! ((i + 1) mod length subColonies))
         = iterationBest (subColonies ! i)
     \<and> receivedIterationBestScore
           (CommunicateRingTopology subColonies ! ((i + 1) mod length subColonies))
         = FixedCellCount (iterationBest (subColonies ! i))
     \<and> length (CommunicateRingTopology subColonies) = length subColonies"
proof -
  let ?n = "length subColonies"
  let ?V = "map (\<lambda>i. Copy default_board (iterationBest (subColonies ! i))) [0..<?n]"
  have ring: "CommunicateRingTopology subColonies =
      fold (\<lambda>i cs. cs[(i + 1) mod ?n := ReceiveIterationBest (cs ! ((i + 1) mod ?n)) (?V ! i)])
        [0..<?n] subColonies"
    by (simp add: CommunicateRingTopology_def Let_def)
  from assms(1) have "0 < ?n" by auto
  then have target: "(i + 1) mod ?n < ?n" by (rule mod_less_divisor)
  have "CommunicateRingTopology subColonies ! ((i + 1) mod ?n)
      = ReceiveIterationBest (subColonies ! ((i + 1) mod ?n)) (?V ! i)"
    unfolding ring
    using fold_upd_hit [of "\<lambda>i. (i + 1) mod ?n" "[0..<?n]" i subColonies
        "\<lambda>i c. ReceiveIterationBest c (?V ! i)"] assms(1) target distinct_ring [of ?n]
    by simp
  moreover from assms have "?V ! i = iterationBest (subColonies ! i)"
    by (simp add: Copy_of_shape)
  moreover have "length (CommunicateRingTopology subColonies) = ?n"
    unfolding ring by (rule fold_upd_length)
  ultimately show ?thesis
    by (simp add: ReceiveIterationBest_def Copy_of_shape assms(2))
qed

theorem ring_exchange_delivers_witness:
  "(1::nat) < length colonies3 \<and> board_shape (iterationBest (colonies3 ! 1))
     \<and> receivedIterationBest (CommunicateRingTopology colonies3 ! 2) = solved9
     \<and> receivedIterationBestScore (CommunicateRingTopology colonies3 ! 2) = 81"
proof -
  have len: "length colonies3 = 3" by (simp add: colonies3_def)
  have best: "iterationBest (colonies3 ! Suc 0) = solved9"
    by (simp add: colonies3_def colony9_def)
  have shape: "board_shape solved9"
    by (simp add: solved9_def board9_def board_shape_def)
  have count: "FixedCellCount solved9 = 81"
    by (simp add: solved9_def board9_def FixedCellCount_def)
  have h1: "1 < length colonies3" by (simp add: len)
  have h2: "board_shape (iterationBest (colonies3 ! 1))" by (simp add: best shape)
  from ring_exchange_delivers [OF h1 h2] h1 h2 show ?thesis
    by (simp add: len best count numeral_2_eq_2)
qed

lemma map_by_index: "length xs = n \<Longrightarrow> map f xs = map (\<lambda>k. f (xs ! k)) [0..<n]"
  by (auto intro: nth_equalityI)

lemma image_mset_by_index:
  assumes "length xs = n"
  shows "image_mset f (mset xs) = image_mset (\<lambda>k. f (xs ! k)) (mset [0..<n])"
proof -
  have "mset (map f xs) = mset (map (\<lambda>k. f (xs ! k)) [0..<n])"
    by (simp only: map_by_index [OF assms, of f])
  then show ?thesis by (simp only: mset_map)
qed

lemma mset_rotate_eq: "mset (rotate k xs) = mset xs"
proof -
  have "mset (rotate k xs)
      = mset (drop (k mod length xs) xs) + mset (take (k mod length xs) xs)"
    by (simp add: rotate_drop_take)
  also have "\<dots> = mset (take (k mod length xs) xs @ drop (k mod length xs) xs)"
    by (simp only: mset_append add.commute)
  finally show ?thesis by simp
qed

lemma pred_mod_neq:
  assumes "2 \<le> n" "i < n"
  shows "(i + n - 1) mod n \<noteq> (i::nat)"
proof (cases i)
  case 0
  with assms show ?thesis by simp
next
  case (Suc k)
  with assms have "(i + n - 1) mod n = k" by simp
  with Suc show ?thesis by simp
qed

text \<open>
  C8.  For a match array that is a permutation of the \<open>n\<close> colony indices, the random
  exchange hands out the boards \<open>bestSol\<close> of before the exchange as a multiset: the
  received boards are the sent ones, colony \<open>matchArray[i]\<close> receives the board of
  colony \<open>matchArray[(i - 1 + n) mod n]\<close>, every colony is the receiver of exactly one
  round, and for \<open>n \<ge> 2\<close> the sender of a round is never its receiver.
\<close>

theorem random_exchange_bijection:
  assumes perm: "mset matchArray = mset [0..<length subColonies]"
      and shape: "\<forall>c \<in> set subColonies. board_shape (bestSol c)"
  shows "mset (map receivedBestSol (CommunicateRandomTopology subColonies matchArray))
           = mset (map bestSol subColonies)
     \<and> (\<forall>i < length subColonies.
           receivedBestSol (CommunicateRandomTopology subColonies matchArray ! (matchArray ! i))
             = bestSol (subColonies
                 ! (matchArray ! ((i + length subColonies - 1) mod length subColonies))))
     \<and> (\<forall>c < length subColonies. \<exists>!i. i < length subColonies \<and> matchArray ! i = c)
     \<and> (2 \<le> length subColonies \<longrightarrow>
          (\<forall>i < length subColonies.
             matchArray ! ((i + length subColonies - 1) mod length subColonies) \<noteq> matchArray ! i))"
proof -
  let ?n = "length subColonies"
  let ?B = "map (\<lambda>i. Copy default_board (bestSol (subColonies ! i))) [0..<?n]"
  let ?from = "\<lambda>i. matchArray ! ((i + ?n - 1) mod ?n)"
  let ?cs' = "CommunicateRandomTopology subColonies matchArray"
  from perm have len: "length matchArray = ?n"
    by (metis size_mset length_upt diff_zero)
  from perm have dist: "distinct matchArray"
    by (metis distinct_upt mset_eq_imp_distinct_iff)
  from perm have elems: "set matchArray = {0..<?n}"
    by (metis mset_eq_setD set_upt)
  have in_range: "matchArray ! i < ?n" if "i < ?n" for i
    using that len elems nth_mem [of i matchArray] by auto
  have from_range: "?from i < ?n" if "i < ?n" for i
  proof -
    from that have "0 < ?n" by auto
    then have "(i + ?n - 1) mod ?n < ?n" by (rule mod_less_divisor)
    then show ?thesis by (rule in_range)
  qed
  have rand: "?cs' =
      fold (\<lambda>i cs. cs[matchArray ! i := ReceiveBestSol (cs ! (matchArray ! i)) (?B ! ?from i)])
        [0..<?n] subColonies"
    by (simp add: CommunicateRandomTopology_def Let_def)
  have targets: "map (\<lambda>i. matchArray ! i) [0..<?n] = matchArray"
    using map_nth [of matchArray] len by simp
  have length': "length ?cs' = ?n"
    unfolding rand by (rule fold_upd_length)
  have delivered: "receivedBestSol (?cs' ! (matchArray ! i)) = bestSol (subColonies ! ?from i)"
    if "i < ?n" for i
  proof -
    have "?cs' ! (matchArray ! i)
        = ReceiveBestSol (subColonies ! (matchArray ! i)) (?B ! ?from i)"
      unfolding rand
      using fold_upd_hit [of "\<lambda>i. matchArray ! i" "[0..<?n]" i subColonies
          "\<lambda>i c. ReceiveBestSol c (?B ! ?from i)"] that in_range [OF that] dist targets
      by simp
    moreover from from_range [OF that] shape
    have "?B ! ?from i = bestSol (subColonies ! ?from i)"
      by (simp add: Copy_of_shape)
    moreover from from_range [OF that] shape
    have "board_shape (bestSol (subColonies ! ?from i))" by simp
    ultimately show ?thesis
      by (simp add: ReceiveBestSol_def Copy_of_shape)
  qed
  have "mset (map receivedBestSol ?cs')
      = image_mset (\<lambda>k. receivedBestSol (?cs' ! k)) (mset [0..<?n])"
    using image_mset_by_index [OF length', of receivedBestSol] by (simp only: mset_map)
  also have "\<dots> = image_mset (\<lambda>k. receivedBestSol (?cs' ! k)) (mset matchArray)"
    by (simp only: perm)
  also have "\<dots> = image_mset (\<lambda>i. receivedBestSol (?cs' ! (matchArray ! i))) (mset [0..<?n])"
    by (rule image_mset_by_index [OF len])
  also have "\<dots> = image_mset (\<lambda>i. bestSol (subColonies ! ?from i)) (mset [0..<?n])"
    by (rule image_mset_cong) (simp add: delivered)
  also have "\<dots> = image_mset (\<lambda>k. bestSol (subColonies ! k)) (mset (map ?from [0..<?n]))"
    by (simp only: mset_map multiset.map_comp comp_def)
  also have "map ?from [0..<?n] = rotate (?n - 1) matchArray"
  proof (rule nth_equalityI)
    show "length (map ?from [0..<?n]) = length (rotate (?n - 1) matchArray)"
      by (simp add: len)
  next
    fix i assume "i < length (map ?from [0..<?n])"
    then have i: "i < ?n" by simp
    then have "(?n - 1 + i) mod ?n = (i + ?n - 1) mod ?n"
      by (simp add: add.commute)
    with i show "map ?from [0..<?n] ! i = rotate (?n - 1) matchArray ! i"
      by (simp add: nth_rotate len)
  qed
  also have "mset (rotate (?n - 1) matchArray) = mset [0..<?n]"
    by (simp only: mset_rotate_eq perm)
  also have "image_mset (\<lambda>k. bestSol (subColonies ! k)) (mset [0..<?n])
      = mset (map bestSol subColonies)"
    using image_mset_by_index [of subColonies ?n bestSol] by (simp only: mset_map)
  finally have bag: "mset (map receivedBestSol ?cs') = mset (map bestSol subColonies)" .
  have once: "\<exists>!i. i < ?n \<and> matchArray ! i = c" if "c < ?n" for c
  proof -
    from that elems have "c \<in> set matchArray" by simp
    then obtain i where "i < length matchArray" "matchArray ! i = c"
      by (auto simp: in_set_conv_nth)
    with dist len show ?thesis
      by (auto simp: nth_eq_iff_index_eq)
  qed
  have other: "?from i \<noteq> matchArray ! i" if "2 \<le> ?n" "i < ?n" for i
  proof -
    from that have "(i + ?n - 1) mod ?n \<noteq> i" by (rule pred_mod_neq)
    moreover from that have "0 < ?n" by auto
    then have "(i + ?n - 1) mod ?n < length matchArray"
      unfolding len by (rule mod_less_divisor)
    ultimately show ?thesis
      using dist that len by (simp add: nth_eq_iff_index_eq)
  qed
  from bag delivered once other show ?thesis by blast
qed

theorem random_exchange_bijection_witness:
  "mset [2, 0, 1] = mset [0..<length colonies3]
     \<and> mset (map receivedBestSol (CommunicateRandomTopology colonies3 [2, 0, 1]))
         = mset (map bestSol colonies3)
     \<and> receivedBestSol (CommunicateRandomTopology colonies3 [2, 0, 1] ! 2) = solved9
     \<and> receivedBestSol (CommunicateRandomTopology colonies3 [2, 0, 1] ! 1) = blank9"
proof -
  have len: "length colonies3 = 3" by (simp add: colonies3_def)
  have upt3: "[0..<3] = [0, 1, 2::nat]" by (simp add: upt_rec)
  have perm: "mset [2, 0, 1] = mset [0..<length colonies3]"
    by (simp add: len upt3)
  have shapes: "\<forall>c \<in> set colonies3. board_shape (bestSol c)"
    by (simp add: colonies3_def colony9_def solved9_def blank9_def board9_def board_shape_def)
  have sols: "bestSol (colonies3 ! Suc 0) = solved9" "bestSol (colonies3 ! 0) = blank9"
    by (simp_all add: colonies3_def colony9_def)
  from random_exchange_bijection [OF perm shapes]
  have "mset (map receivedBestSol (CommunicateRandomTopology colonies3 [2, 0, 1]))
          = mset (map bestSol colonies3)"
    and each: "\<forall>i < length colonies3.
        receivedBestSol (CommunicateRandomTopology colonies3 [2, 0, 1] ! ([2, 0, 1] ! i))
          = bestSol (colonies3 ! ([2, 0, 1] ! ((i + length colonies3 - 1) mod length colonies3)))"
    by blast+
  moreover from each [rule_format, of 0] each [rule_format, of 2]
  have "receivedBestSol (CommunicateRandomTopology colonies3 [2, 0, 1] ! 2) = solved9"
    "receivedBestSol (CommunicateRandomTopology colonies3 [2, 0, 1] ! 1) = blank9"
    by (simp_all add: len sols)
  ultimately show ?thesis using perm by blast
qed

section \<open>The three-source update\<close>

lemma collect_contributions_spec:
  "collect_contributions cvt c i =
     (\<lambda>j. deposit_sum cvt c i j, \<lambda>j. filter (endorses i j) (sources c) \<noteq> [])"
  by (auto simp: collect_contributions_def add_source_def deposit_sum_def sources_def
      endorses_def Let_def fun_eq_iff)

lemma sources_pher [simp]: "sources (c\<lparr>pher := p\<rparr>) = sources c"
  by (simp add: sources_def)

lemma deposit_sum_pher [simp]: "deposit_sum cvt (c\<lparr>pher := p\<rparr>) = deposit_sum cvt c"
  by (simp add: deposit_sum_def fun_eq_iff)

lemma row_step_value:
  "distinct js \<Longrightarrow>
   row_step r h k i js p i' j' =
     (if i' = i \<and> j' \<in> set js \<and> h j' then p i j' * (1 - r) + r * k j' else p i' j')"
  unfolding row_step_def
  by (induction js arbitrary: p) auto

lemma inner_fold_pher:
  "rho c = r \<Longrightarrow>
   fold (\<lambda>j c. if h j
                then c\<lparr>pher := (pher c)(i := (pher c i)(j := pher c i j * (1 - rho c) + rho c * k j))\<rparr>
                else c) js c
   = c\<lparr>pher := row_step r h k i js (pher c)\<rparr>"
  unfolding row_step_def
  by (induction js arbitrary: c) auto

lemma outer_fold_pher:
  "fold (\<lambda>i c.
          case collect_contributions cvt c i of (contributions, hasContribution) \<Rightarrow>
            fold (\<lambda>j c.
                   if hasContribution j
                   then c\<lparr>pher := (pher c)(i := (pher c i)(j :=
                            pher c i j * (1 - rho c) + rho c * contributions j))\<rparr>
                   else c)
              [0..<numUnits' c] c) is (c\<lparr>pher := p\<rparr>)
   = c\<lparr>pher := matrix_step cvt c is p\<rparr>"
proof (induction "is" arbitrary: p)
  case Nil
  then show ?case by (simp add: matrix_step_def)
next
  case (Cons i "is")
  have step: "(case collect_contributions cvt (c\<lparr>pher := p\<rparr>) i of
          (contributions, hasContribution) \<Rightarrow>
            fold (\<lambda>j c.
                   if hasContribution j
                   then c\<lparr>pher := (pher c)(i := (pher c i)(j :=
                            pher c i j * (1 - rho c) + rho c * contributions j))\<rparr>
                   else c)
              [0..<numUnits' (c\<lparr>pher := p\<rparr>)] (c\<lparr>pher := p\<rparr>))
      = c\<lparr>pher := row_step (rho c) (\<lambda>j. filter (endorses i j) (sources c) \<noteq> [])
                    (deposit_sum cvt c i) i [0..<numUnits' c] p\<rparr>"
    by (simp add: collect_contributions_spec inner_fold_pher)
  show ?case
    by (simp only: fold_Cons comp_apply step Cons.IH) (simp add: matrix_step_def)
qed

lemma matrix_step_value:
  "distinct is \<Longrightarrow>
   matrix_step cvt c is p i j =
     (if i \<in> set is \<and> j < numUnits' c \<and> filter (endorses i j) (sources c) \<noteq> []
      then p i j * (1 - rho c) + rho c * deposit_sum cvt c i j else p i j)"
proof (induction "is" arbitrary: p)
  case Nil
  then show ?case by (simp add: matrix_step_def)
next
  case (Cons a "is")
  have unfold: "matrix_step cvt c (a # is) p
      = matrix_step cvt c is (row_step (rho c) (\<lambda>j. filter (endorses a j) (sources c) \<noteq> [])
                    (deposit_sum cvt c a) a [0..<numUnits' c] p)"
    by (simp add: matrix_step_def)
  from Cons.prems have "a \<notin> set is" "distinct is" by auto
  then show ?case
    by (auto simp: unfold Cons.IH row_step_value)
qed

text \<open>
  C4.  The communication update changes \<open>pher[i][j]\<close> only where at least one source
  with a positive score has digit position \<open>j\<close> fixed at cell \<open>i\<close>; there the new value
  is \<open>pher[i][j] * (1 - rho) + rho * contributions[j]\<close>, with \<open>contributions[j]\<close> the sum
  of the deposits of the endorsing sources.  Every other entry keeps its value: nothing
  evaporates without a deposit.
\<close>

theorem communication_update_selective:
  "pher (UpdatePheromoneWithCommunication cvt c) i j =
     (if i < numCells' c \<and> j < numUnits' c \<and> filter (endorses i j) (sources c) \<noteq> []
      then pher c i j * (1 - rho c) + rho c * deposit_sum cvt c i j
      else pher c i j)"
proof -
  have "UpdatePheromoneWithCommunication cvt c
      = c\<lparr>pher := matrix_step cvt c [0..<numCells' c] (pher c)\<rparr>"
    unfolding UpdatePheromoneWithCommunication_def
    using outer_fold_pher [where cvt = cvt and c = c and p = "pher c" and ?is = "[0..<numCells' c]"]
    by simp
  then show ?thesis
    by (simp add: matrix_step_value)
qed

theorem communication_update_selective_witness:
  "pher (UpdatePheromoneWithCommunication rat_of_int (colony9 solved9 80 blank9 0)) 0 0
     = 1 / 81 * (1 - 9 / 10) + 9 / 10 * (0 + 81 / 1)
   \<and> pher (UpdatePheromoneWithCommunication rat_of_int (colony9 solved9 80 blank9 0)) 0 1
     = 1 / 81"
proof -
  let ?c = "colony9 solved9 80 blank9 0"
  have cell: "GetCell solved9 0 = single9 0"
    by (simp add: solved9_def board9_def GetCell_def)
  have fixed: "Fixed (single9 0)" "Index (single9 0) = 0"
    by (simp_all add: single9_def Fixed_def Count_def Index_def)
  have src: "sources ?c = [(80, solved9), (0, blank9), (0, blank9)]"
    by (simp add: sources_def colony9_def)
  have yes: "filter (endorses 0 0) (sources ?c) = [(80, solved9)]"
    by (simp add: src endorses_def cell fixed)
  have no: "filter (endorses 0 1) (sources ?c) = []"
    by (simp add: src endorses_def cell fixed)
  have fields: "numCells' ?c = 81" "numUnits' ?c = 9" "rho ?c = 9 / 10"
    "pher ?c 0 0 = 1 / 81" "pher ?c 0 1 = 1 / 81"
    by (simp_all add: colony9_def)
  have sum: "deposit_sum rat_of_int ?c 0 0 = 0 + 81 / 1"
    by (simp add: deposit_sum_def yes PherAdd_def PherAdd_divisor_def fields)
  from communication_update_selective [of rat_of_int ?c 0 0]
    communication_update_selective [of rat_of_int ?c 0 1]
  show ?thesis
    by (simp only: yes no sum fields) simp
qed

section \<open>The reinforcement value and its divisor\<close>






section \<open>The index helpers stay inside the board\<close>

lemma digit_bound: "x < m \<Longrightarrow> y < n \<Longrightarrow> y * m + x < n * (m::nat)"
proof -
  assume "x < m" "y < n"
  then have "y * m + x < y * m + m" by simp
  also have "\<dots> = Suc y * m" by simp
  also from \<open>y < n\<close> have "\<dots> \<le> n * m" by (intro mult_le_mono1) simp
  finally show ?thesis .
qed

lemma RowCell_in_range:
  "board_shape b \<Longrightarrow> u < numUnits b \<Longrightarrow> j < numUnits b \<Longrightarrow> RowCell b u j < numCells b"
  by (simp add: board_shape_def RowCell_def digit_bound)

lemma ColCell_in_range:
  "board_shape b \<Longrightarrow> u < numUnits b \<Longrightarrow> j < numUnits b \<Longrightarrow> ColCell b u j < numCells b"
  by (simp add: board_shape_def ColCell_def digit_bound)

lemma BoxCell_in_range:
  assumes "board_shape b" "u < numUnits b" "j < numUnits b"
  shows "BoxCell b u j < numCells b"
proof -
  let ?k = "order b"
  from assms have N: "numUnits b = ?k * ?k" and C: "numCells b = ?k * ?k * (?k * ?k)"
    by (simp_all add: board_shape_def)
  from assms(2) N have k: "0 < ?k" by (cases ?k) auto
  have a: "u mod ?k < ?k" and c: "j mod ?k < ?k" using k by simp_all
  from assms(2,3) N have bd: "u div ?k < ?k" "j div ?k < ?k"
    by (simp_all add: less_mult_imp_div_less)
  have 1: "(u mod ?k) * ?k + j mod ?k < ?k * ?k" using c a by (rule digit_bound)
  have 2: "(j div ?k) * (?k * ?k) + ((u mod ?k) * ?k + j mod ?k) < ?k * (?k * ?k)"
    using 1 bd(2) by (rule digit_bound)
  have 3: "(u div ?k) * (?k * (?k * ?k))
      + ((j div ?k) * (?k * ?k) + ((u mod ?k) * ?k + j mod ?k)) < ?k * (?k * (?k * ?k))"
    using 2 bd(1) by (rule digit_bound)
  have "BoxCell b u j = (u div ?k) * (?k * (?k * ?k))
      + ((j div ?k) * (?k * ?k) + ((u mod ?k) * ?k + j mod ?k))"
    by (simp add: BoxCell_def Let_def algebra_simps)
  with 3 C show ?thesis by (simp add: algebra_simps)
qed

lemma RowForCell_in_range:
  "board_shape b \<Longrightarrow> i < numCells b \<Longrightarrow> RowForCell b i < numUnits b"
  by (simp add: board_shape_def RowForCell_def less_mult_imp_div_less)

lemma ColForCell_in_range:
  assumes "board_shape b" "i < numCells b"
  shows "ColForCell b i < numUnits b"
proof -
  from assms have "i < numUnits b * numUnits b" by (simp add: board_shape_def)
  then have "0 < numUnits b" by (cases "numUnits b = 0") simp_all
  then show ?thesis
    unfolding ColForCell_def by (rule mod_less_divisor)
qed

lemma BoxForCell_in_range:
  assumes "board_shape b" "i < numCells b"
  shows "BoxForCell b i < numUnits b"
proof -
  let ?k = "order b"
  from assms have N: "numUnits b = ?k * ?k" and C: "numCells b = ?k * ?k * (?k * ?k)"
    by (simp_all add: board_shape_def)
  from assms(2) C have k: "0 < ?k" by (cases ?k) auto
  from assms(2) C have "i < ?k * ?k * ?k * ?k" by (simp add: mult.assoc)
  then have hi: "i div (?k * ?k * ?k) < ?k"
    by (simp add: less_mult_imp_div_less)
  have "i mod (?k * ?k) < ?k * ?k" using k by simp
  then have lo: "(i mod (?k * ?k)) div ?k < ?k"
    by (simp add: less_mult_imp_div_less)
  have "(i div (?k * ?k * ?k)) * ?k + (i mod (?k * ?k)) div ?k < ?k * ?k"
    using lo hi by (rule digit_bound)
  then show ?thesis
    by (simp add: BoxForCell_def N mult.commute)
qed

section \<open>What constraint propagation keeps\<close>

lemma keeps_fixed_refl: "keeps_fixed b b"
  by (simp add: keeps_fixed_def)

lemma keeps_fixed_trans: "keeps_fixed a b \<Longrightarrow> keeps_fixed b c \<Longrightarrow> keeps_fixed a c"
  by (auto simp: keeps_fixed_def)

lemma keeps_fixed_SetCellDirect:
  "\<not> Fixed (GetCell b i) \<Longrightarrow> keeps_fixed b (SetCellDirect b i v)"
  by (auto simp: keeps_fixed_def SetCellDirect_def GetCell_def) (metis nth_list_update_neq)

lemma keeps_fixed_IncrementFixedCells: "keeps_fixed b (IncrementFixedCells b)"
  by (simp add: keeps_fixed_def IncrementFixedCells_def GetCell_def)

lemma keeps_fixed_IncrementInfeasible: "keeps_fixed b (IncrementInfeasible b)"
  by (simp add: keeps_fixed_def IncrementInfeasible_def GetCell_def)

lemma fold_option_keeps:
  assumes "\<And>x s s'. f x s = Some s' \<Longrightarrow> keeps_fixed s s'"
  shows "fold_option f xs s = Some s' \<Longrightarrow> keeps_fixed s s'"
proof (induction xs arbitrary: s)
  case Nil
  then show ?case by (simp add: keeps_fixed_refl)
next
  case (Cons x xs)
  then obtain s1 where "f x s = Some s1" "fold_option f xs s1 = Some s'"
    by (auto split: option.splits)
  with assms Cons.IH show ?case by (blast intro: keeps_fixed_trans)
qed

lemma Rule1_keeps:
  assumes sp: "\<And>b i v b'. setprop b i v = Some b' \<Longrightarrow> keeps_fixed b b'"
      and r: "Rule1_Elimination setprop xr board i = Some (board', res)"
  shows "keeps_fixed board board'"
  using r
  by (auto simp: Rule1_Elimination_def Let_def keeps_fixed_refl keeps_fixed_SetCellDirect
      split: if_splits option.splits dest: sp)

lemma Rule2_keeps:
  assumes sp: "\<And>b i v b'. setprop b i v = Some b' \<Longrightarrow> keeps_fixed b b'"
      and r: "Rule2_HiddenSingle setprop board i = Some (board', res)"
  shows "keeps_fixed board board'"
  using r
  by (auto simp: Rule2_HiddenSingle_def Let_def keeps_fixed_refl
      split: if_splits option.splits prod.splits dest: sp)

lemma Propagate_keeps:
  assumes sp: "\<And>b i v b'. setprop b i v = Some b' \<Longrightarrow> keeps_fixed b b'"
      and r: "PropagateConstraints setprop xr board i = Some board'"
  shows "keeps_fixed board board'"
proof (cases "Empty (GetCell board i) \<or> Fixed (GetCell board i)")
  case True
  with r show ?thesis by (simp add: PropagateConstraints_def keeps_fixed_refl)
next
  case False
  with r obtain b1 res where r1: "Rule1_Elimination setprop xr board i = Some (b1, res)"
    by (auto simp: PropagateConstraints_def split: option.splits)
  have k1: "keeps_fixed board b1"
    using r1 by (rule Rule1_keeps [rotated]) (rule sp)
  show ?thesis
  proof (cases res)
    case True
    with r r1 False k1 show ?thesis by (simp add: PropagateConstraints_def)
  next
    case nofix: False
    with r r1 False obtain b2 res2 where r2: "Rule2_HiddenSingle setprop b1 i = Some (b2, res2)"
      and out: "board' = (if Empty (GetCell b2 i) then IncrementInfeasible b2 else b2)"
      by (auto simp: PropagateConstraints_def split: option.splits)
    have k2: "keeps_fixed b1 b2"
      using r2 by (rule Rule2_keeps [rotated]) (rule sp)
    from out have "keeps_fixed b2 board'"
      by (simp add: keeps_fixed_refl keeps_fixed_IncrementInfeasible)
    with k1 k2 show ?thesis by (blast intro: keeps_fixed_trans)
  qed
qed

lemma propagate_unless_self_keeps:
  assumes sp: "\<And>b i v b'. setprop b i v = Some b' \<Longrightarrow> keeps_fixed b b'"
      and r: "propagate_unless_self setprop xr i board k = Some board'"
  shows "keeps_fixed board board'"
proof (cases "k \<noteq> i")
  case True
  with r have "PropagateConstraints setprop xr board k = Some board'"
    by (simp add: propagate_unless_self_def)
  then show ?thesis by (rule Propagate_keeps [rotated]) (rule sp)
next
  case False
  with r show ?thesis by (simp add: propagate_unless_self_def keeps_fixed_refl)
qed

lemma propagate_peers_keeps:
  assumes sp: "\<And>b i v b'. setprop b i v = Some b' \<Longrightarrow> keeps_fixed b b'"
      and r: "propagate_peers setprop xr i iBox iCol iRow j board = Some board'"
  shows "keeps_fixed board board'"
proof -
  from r obtain b1 b2
    where 1: "propagate_unless_self setprop xr i board (BoxCell board iBox j) = Some b1"
      and 2: "propagate_unless_self setprop xr i b1 (ColCell b1 iCol j) = Some b2"
      and 3: "propagate_unless_self setprop xr i b2 (RowCell b2 iRow j) = Some board'"
    by (auto simp: propagate_peers_def split: option.splits)
  have "keeps_fixed board b1" using 1 by (rule propagate_unless_self_keeps [rotated]) (rule sp)
  moreover have "keeps_fixed b1 b2"
    using 2 by (rule propagate_unless_self_keeps [rotated]) (rule sp)
  moreover have "keeps_fixed b2 board'"
    using 3 by (rule propagate_unless_self_keeps [rotated]) (rule sp)
  ultimately show ?thesis by (blast intro: keeps_fixed_trans)
qed

lemma SetCellAndPropagate_keeps:
  "SetCellAndPropagate depth xr board i v = Some board' \<Longrightarrow> keeps_fixed board board'"
proof (induction depth arbitrary: board i v board')
  case 0
  then show ?case by simp
next
  case (Suc depth)
  show ?case
  proof (cases "Fixed (GetCell board i)")
    case True
    with Suc.prems show ?thesis by (simp add: keeps_fixed_refl)
  next
    case False
    let ?b1 = "IncrementFixedCells (SetCellDirect board i v)"
    from False Suc.prems
    have "fold_option
            (propagate_peers (SetCellAndPropagate depth xr) xr i
               (BoxForCell ?b1 i) (ColForCell ?b1 i) (RowForCell ?b1 i))
            [0..<GetNumUnits ?b1] ?b1 = Some board'"
      by (simp add: Let_def)
    then have "keeps_fixed ?b1 board'"
    proof (rule fold_option_keeps [rotated])
      fix x s s'
      assume "propagate_peers (SetCellAndPropagate depth xr) xr i
                (BoxForCell ?b1 i) (ColForCell ?b1 i) (RowForCell ?b1 i) x s = Some s'"
      then show "keeps_fixed s s'"
        by (rule propagate_peers_keeps [rotated]) (rule Suc.IH)
    qed
    moreover from False have "keeps_fixed board ?b1"
      by (blast intro: keeps_fixed_trans keeps_fixed_SetCellDirect keeps_fixed_IncrementFixedCells)
    ultimately show ?thesis by (rule keeps_fixed_trans [rotated])
  qed
qed

lemma apply_cp_op_keeps:
  "keeps_fixed board board'" if "apply_cp_op depth xr op board = Some board'"
proof (cases op)
  case (OpRule1 i)
  with that obtain res
    where "Rule1_Elimination (SetCellAndPropagate depth xr) xr board i = Some (board', res)"
    by auto
  then show ?thesis
    by (rule Rule1_keeps [rotated]) (rule SetCellAndPropagate_keeps)
next
  case (OpRule2 i)
  with that obtain res
    where "Rule2_HiddenSingle (SetCellAndPropagate depth xr) board i = Some (board', res)"
    by auto
  then show ?thesis
    by (rule Rule2_keeps [rotated]) (rule SetCellAndPropagate_keeps)
next
  case (OpPropagate i)
  with that have "PropagateConstraints (SetCellAndPropagate depth xr) xr board i = Some board'"
    by simp
  then show ?thesis
    by (rule Propagate_keeps [rotated]) (rule SetCellAndPropagate_keeps)
next
  case (OpSetCell i v)
  with that show ?thesis by (simp add: SetCellAndPropagate_keeps)
qed

section \<open>Constraint propagation returns\<close>

text \<open>Every call of \<open>SetCellAndPropagate\<close> below the first fixes a cell that was not
  fixed, so the recursion is at most as deep as the number of such cells, and the
  result does not change when the bound on the depth grows.\<close>

lemma unfixed_card: "unfixed b = card {j. j < length (cells b) \<and> \<not> Fixed (cells b ! j)}"
  by (simp add: unfixed_def length_filter_conv_card)

lemma keeps_fixed_unfixed: "keeps_fixed b b' \<Longrightarrow> unfixed b' \<le> unfixed b"
proof -
  assume k: "keeps_fixed b b'"
  have "{j. j < length (cells b') \<and> \<not> Fixed (cells b' ! j)}
      \<subseteq> {j. j < length (cells b) \<and> \<not> Fixed (cells b ! j)}"
    using k by (auto simp: keeps_fixed_def GetCell_def)
  then show ?thesis
    unfolding unfixed_card by (intro card_mono) simp_all
qed

lemma keeps_fixed_shape: "keeps_fixed b b' \<Longrightarrow> board_shape b \<Longrightarrow> board_shape b'"
  by (simp add: keeps_fixed_def board_shape_def)

lemma set_cell_unfixed:
  assumes "\<not> Fixed (GetCell b i)" "Fixed v" "i < length (cells b)"
  shows "unfixed (IncrementFixedCells (SetCellDirect b i v)) < unfixed b"
proof -
  let ?b1 = "IncrementFixedCells (SetCellDirect b i v)"
  have "{j. j < length (cells ?b1) \<and> \<not> Fixed (cells ?b1 ! j)}
      \<subset> {j. j < length (cells b) \<and> \<not> Fixed (cells b ! j)}"
  proof
    show "{j. j < length (cells ?b1) \<and> \<not> Fixed (cells ?b1 ! j)}
      \<subseteq> {j. j < length (cells b) \<and> \<not> Fixed (cells b ! j)}"
      using assms
      by (auto simp: IncrementFixedCells_def SetCellDirect_def GetCell_def nth_list_update
          split: if_splits)
    from assms have "i \<in> {j. j < length (cells b) \<and> \<not> Fixed (cells b ! j)}"
      by (simp add: GetCell_def)
    moreover from assms have "i \<notin> {j. j < length (cells ?b1) \<and> \<not> Fixed (cells ?b1 ! j)}"
      by (simp add: IncrementFixedCells_def SetCellDirect_def)
    ultimately show "{j. j < length (cells ?b1) \<and> \<not> Fixed (cells ?b1 ! j)}
      \<noteq> {j. j < length (cells b) \<and> \<not> Fixed (cells b ! j)}"
      by blast
  qed
  then show ?thesis
    unfolding unfixed_card by (intro psubset_card_mono) simp_all
qed

lemma shape_within_keeps: "shape_within m b \<Longrightarrow> keeps_fixed b b' \<Longrightarrow> shape_within m b'"
  using keeps_fixed_unfixed [of b b'] keeps_fixed_shape [of b b'] by (simp add: shape_within_def)

lemma total_onD1:
  "total_on m sp \<Longrightarrow> shape_within m b \<Longrightarrow> i < numCells b \<Longrightarrow> Fixed v \<Longrightarrow> \<exists>b'. sp b i v = Some b'"
  by (auto simp: total_on_def)

lemma total_onD2: "total_on m sp \<Longrightarrow> sp b i v = Some b' \<Longrightarrow> keeps_fixed b b'"
  by (auto simp: total_on_def)

lemma Rule1_total:
  assumes "total_on m sp" "shape_within m b" "i < numCells b"
  shows "\<exists>b' r. Rule1_Elimination sp xr b i = Some (b', r)"
proof (cases "Empty (GetCell b i) \<or> Fixed (GetCell b i)")
  case True
  then show ?thesis by (auto simp: Rule1_Elimination_def)
next
  case False
  show ?thesis
  proof (cases "Fixed (fixedCellsConstraint b i)")
    case True
    from total_onD1 [OF assms True] obtain b' where "sp b i (fixedCellsConstraint b i) = Some b'" ..
    with False True show ?thesis by (auto simp: Rule1_Elimination_def Let_def)
  next
    case nf: False
    with False show ?thesis by (auto simp: Rule1_Elimination_def Let_def)
  qed
qed

lemma Rule2_total:
  assumes "total_on m sp" "shape_within m b" "i < numCells b"
  shows "\<exists>b' r. Rule2_HiddenSingle sp b i = Some (b', r)"
proof (cases "Empty (GetCell b i) \<or> Fixed (GetCell b i)")
  case True
  then show ?thesis by (auto simp: Rule2_HiddenSingle_def)
next
  case False
  obtain colAll rowAll boxAll where coll: "Rule2_collect b i = (colAll, rowAll, boxAll)"
    by (cases "Rule2_collect b i") auto
  have some: "\<exists>b'. sp b i v = Some b'" if "Fixed v" for v
    using total_onD1 [OF assms that] .
  show ?thesis
    using False coll some [of "vs_minus (GetCell b i) rowAll"]
      some [of "vs_minus (GetCell b i) colAll"] some [of "vs_minus (GetCell b i) boxAll"]
    by (auto simp: Rule2_HiddenSingle_def Let_def)
qed

lemma Propagate_total:
  assumes t: "total_on m sp" and okb: "shape_within m b" and i: "i < numCells b"
  shows "\<exists>b'. PropagateConstraints sp xr b i = Some b'"
proof (cases "Empty (GetCell b i) \<or> Fixed (GetCell b i)")
  case True
  then show ?thesis by (simp add: PropagateConstraints_def)
next
  case False
  from Rule1_total [OF t okb i] obtain b1 r1
    where r1: "Rule1_Elimination sp xr b i = Some (b1, r1)" by blast
  have k1: "keeps_fixed b b1"
    using r1 by (rule Rule1_keeps [rotated]) (rule total_onD2 [OF t])
  then have ok1: "shape_within m b1" using okb by (rule shape_within_keeps [rotated])
  from k1 i have i1: "i < numCells b1" by (simp add: keeps_fixed_def)
  from Rule2_total [OF t ok1 i1] obtain b2 r2
    where r2: "Rule2_HiddenSingle sp b1 i = Some (b2, r2)" by blast
  from False r1 r2 show ?thesis
    by (cases r1) (simp_all add: PropagateConstraints_def)
qed

lemma propagate_unless_self_total:
  assumes "total_on m sp" "shape_within m b" "k < numCells b"
  shows "\<exists>b'. propagate_unless_self sp xr i b k = Some b' \<and> shape_within m b'
           \<and> numUnits b' = numUnits b"
proof (cases "k \<noteq> i")
  case True
  from Propagate_total [OF assms] obtain b'
    where r: "PropagateConstraints sp xr b k = Some b'" by blast
  then have "keeps_fixed b b'"
    by (rule Propagate_keeps [rotated]) (rule total_onD2 [OF assms(1)])
  with assms(2) have "shape_within m b'" "numUnits b' = numUnits b"
    by (auto intro: shape_within_keeps simp: keeps_fixed_def)
  with r True show ?thesis by (simp add: propagate_unless_self_def)
next
  case False
  with assms(2) show ?thesis by (simp add: propagate_unless_self_def)
qed

lemma propagate_peers_total:
  assumes t: "total_on m sp" and okb: "shape_within m b"
      and u: "iBox < numUnits b" "iCol < numUnits b" "iRow < numUnits b" and j: "j < numUnits b"
  shows "\<exists>b'. propagate_peers sp xr i iBox iCol iRow j b = Some b' \<and> shape_within m b'
           \<and> numUnits b' = numUnits b"
proof -
  from okb have sh: "board_shape b" by (simp add: shape_within_def)
  from propagate_unless_self_total [OF t okb BoxCell_in_range [OF sh u(1) j]]
  obtain b1 where 1: "propagate_unless_self sp xr i b (BoxCell b iBox j) = Some b1"
    and ok1: "shape_within m b1" and n1: "numUnits b1 = numUnits b" by blast
  from ok1 have sh1: "board_shape b1" by (simp add: shape_within_def)
  from u j n1 have in1: "iCol < numUnits b1" "j < numUnits b1" by simp_all
  from propagate_unless_self_total [OF t ok1 ColCell_in_range [OF sh1 in1]]
  obtain b2 where 2: "propagate_unless_self sp xr i b1 (ColCell b1 iCol j) = Some b2"
    and ok2: "shape_within m b2" and n2: "numUnits b2 = numUnits b1" by blast
  from ok2 have sh2: "board_shape b2" by (simp add: shape_within_def)
  from u j n1 n2 have in2: "iRow < numUnits b2" "j < numUnits b2" by simp_all
  from propagate_unless_self_total [OF t ok2 RowCell_in_range [OF sh2 in2]]
  obtain b3 where 3: "propagate_unless_self sp xr i b2 (RowCell b2 iRow j) = Some b3"
    and ok3: "shape_within m b3" and n3: "numUnits b3 = numUnits b2" by blast
  from 1 2 3 ok3 n1 n2 n3 show ?thesis
    by (simp add: propagate_peers_def)
qed

lemma fold_peers_total:
  assumes t: "total_on m sp"
  shows "shape_within m b \<Longrightarrow> iBox < numUnits b \<Longrightarrow> iCol < numUnits b \<Longrightarrow> iRow < numUnits b
    \<Longrightarrow> \<forall>j \<in> set js. j < numUnits b
    \<Longrightarrow> \<exists>b'. fold_option (propagate_peers sp xr i iBox iCol iRow) js b = Some b'"
proof (induction js arbitrary: b)
  case Nil
  then show ?case by simp
next
  case (Cons j js)
  from Cons.prems have j: "j < numUnits b" by simp
  from propagate_peers_total [OF t Cons.prems(1-4) j]
  obtain b1 where 1: "propagate_peers sp xr i iBox iCol iRow j b = Some b1"
    and ok1: "shape_within m b1" and n1: "numUnits b1 = numUnits b" by blast
  from Cons.prems n1 have "\<exists>b'. fold_option (propagate_peers sp xr i iBox iCol iRow) js b1 = Some b'"
    by (intro Cons.IH ok1) simp_all
  with 1 show ?case by simp
qed

lemma set_cell_step:
  assumes t: "total_on m (SetCellAndPropagate d xr)"
      and ok1: "shape_within m (IncrementFixedCells (SetCellDirect b i v))" and i: "i < numCells b"
      and sh: "board_shape b"
  shows "\<exists>b'. SetCellAndPropagate (Suc d) xr b i v = Some b'"
proof (cases "Fixed (GetCell b i)")
  case True
  then show ?thesis by simp
next
  case False
  let ?b1 = "IncrementFixedCells (SetCellDirect b i v)"
  have sh1: "board_shape ?b1" using ok1 by (simp add: shape_within_def)
  have i1: "i < numCells ?b1" using i by (simp add: IncrementFixedCells_def SetCellDirect_def)
  have "\<exists>b'. fold_option
          (propagate_peers (SetCellAndPropagate d xr) xr i
             (BoxForCell ?b1 i) (ColForCell ?b1 i) (RowForCell ?b1 i))
          [0..<GetNumUnits ?b1] ?b1 = Some b'"
    using t ok1 BoxForCell_in_range [OF sh1 i1] ColForCell_in_range [OF sh1 i1]
      RowForCell_in_range [OF sh1 i1]
    by (rule fold_peers_total) (simp add: GetNumUnits_def)
  with False show ?thesis by (simp add: Let_def)
qed

lemma SetCellAndPropagate_total: "total_on m (SetCellAndPropagate (Suc m) xr)"
proof (induction m)
  case 0
  have "SetCellAndPropagate (Suc 0) xr b i v \<noteq> None" if "shape_within 0 b" "i < numCells b" for b i v
  proof -
    from that have "{j. j < length (cells b) \<and> \<not> Fixed (cells b ! j)} = {}"
      by (simp add: shape_within_def unfixed_card)
    moreover from that have "i < length (cells b)" by (simp add: shape_within_def board_shape_def)
    ultimately have "Fixed (GetCell b i)" by (auto simp: GetCell_def)
    then show ?thesis by simp
  qed
  then show ?case
    unfolding total_on_def by (blast intro: SetCellAndPropagate_keeps)
next
  case (Suc m)
  have "SetCellAndPropagate (Suc (Suc m)) xr b i v \<noteq> None"
    if okb: "shape_within (Suc m) b" and i: "i < numCells b" and v: "Fixed v" for b i v
  proof (cases "Fixed (GetCell b i)")
    case True
    then show ?thesis by simp
  next
    case False
    let ?b1 = "IncrementFixedCells (SetCellDirect b i v)"
    from okb have sh: "board_shape b" by (simp add: shape_within_def)
    with i have len: "i < length (cells b)" by (simp add: board_shape_def)
    from set_cell_unfixed [OF False v len] okb have "unfixed ?b1 \<le> m" by (simp add: shape_within_def)
    moreover from sh have "board_shape ?b1"
      by (simp add: board_shape_def IncrementFixedCells_def SetCellDirect_def)
    ultimately have "shape_within m ?b1" by (simp add: shape_within_def)
    from set_cell_step [OF Suc.IH this i sh] show ?thesis by simp
  qed
  then show ?case
    unfolding total_on_def by (blast intro: SetCellAndPropagate_keeps)
qed

lemma le_spD: "le_sp sp sp' \<Longrightarrow> sp b i v = Some r \<Longrightarrow> sp' b i v = Some r"
  by (simp add: le_sp_def)

lemma Rule1_mono:
  "le_sp sp sp' \<Longrightarrow> Rule1_Elimination sp xr b i = Some r \<Longrightarrow> Rule1_Elimination sp' xr b i = Some r"
  by (auto simp: Rule1_Elimination_def Let_def split: if_splits option.splits dest: le_spD)

lemma map_option_mono:
  "le_sp sp sp' \<Longrightarrow> map_option f (sp b i v) = Some r \<Longrightarrow> map_option f (sp' b i v) = Some r"
  by (auto dest: le_spD)

lemma Rule2_mono:
  assumes le: "le_sp sp sp'" and r: "Rule2_HiddenSingle sp b i = Some r"
  shows "Rule2_HiddenSingle sp' b i = Some r"
proof (cases "Empty (GetCell b i) \<or> Fixed (GetCell b i)")
  case True
  with r show ?thesis by (simp add: Rule2_HiddenSingle_def)
next
  case False
  obtain colAll rowAll boxAll where coll: "Rule2_collect b i = (colAll, rowAll, boxAll)"
    by (cases "Rule2_collect b i") auto
  consider (row) "Fixed (vs_minus (GetCell b i) rowAll)"
    | (col) "\<not> Fixed (vs_minus (GetCell b i) rowAll)" "Fixed (vs_minus (GetCell b i) colAll)"
    | (box) "\<not> Fixed (vs_minus (GetCell b i) rowAll)" "\<not> Fixed (vs_minus (GetCell b i) colAll)"
        "Fixed (vs_minus (GetCell b i) boxAll)"
    | (none) "\<not> Fixed (vs_minus (GetCell b i) rowAll)" "\<not> Fixed (vs_minus (GetCell b i) colAll)"
        "\<not> Fixed (vs_minus (GetCell b i) boxAll)"
    by blast
  then show ?thesis
  proof cases
    case row
    with r False coll show ?thesis
      by (simp add: Rule2_HiddenSingle_def Let_def map_option_mono [OF le])
  next
    case col
    with r False coll show ?thesis
      by (simp add: Rule2_HiddenSingle_def Let_def map_option_mono [OF le])
  next
    case box
    with r False coll show ?thesis
      by (simp add: Rule2_HiddenSingle_def Let_def map_option_mono [OF le])
  next
    case none
    with r False coll show ?thesis
      by (simp add: Rule2_HiddenSingle_def Let_def)
  qed
qed

lemma Propagate_mono:
  assumes le: "le_sp sp sp'" and r: "PropagateConstraints sp xr b i = Some r"
  shows "PropagateConstraints sp' xr b i = Some r"
proof (cases "Empty (GetCell b i) \<or> Fixed (GetCell b i)")
  case True
  with r show ?thesis by (simp add: PropagateConstraints_def)
next
  case False
  with r obtain b1 r1 where r1: "Rule1_Elimination sp xr b i = Some (b1, r1)"
    by (auto simp: PropagateConstraints_def split: option.splits)
  note r1' = Rule1_mono [OF le r1]
  show ?thesis
  proof (cases r1)
    case True
    with r r1 r1' False show ?thesis by (simp add: PropagateConstraints_def)
  next
    case nofix: False
    with r r1 False obtain b2 r2 where r2: "Rule2_HiddenSingle sp b1 i = Some (b2, r2)"
      by (auto simp: PropagateConstraints_def split: option.splits)
    note r2' = Rule2_mono [OF le r2]
    from r r1 r1' r2 r2' False nofix show ?thesis by (simp add: PropagateConstraints_def)
  qed
qed

lemma propagate_unless_self_mono:
  "le_sp sp sp' \<Longrightarrow> propagate_unless_self sp xr i b k = Some r
    \<Longrightarrow> propagate_unless_self sp' xr i b k = Some r"
  by (auto simp: propagate_unless_self_def intro: Propagate_mono split: if_splits)

lemma propagate_peers_mono:
  assumes le: "le_sp sp sp'" and r: "propagate_peers sp xr i iBox iCol iRow j b = Some r"
  shows "propagate_peers sp' xr i iBox iCol iRow j b = Some r"
proof -
  from r obtain b1 b2
    where 1: "propagate_unless_self sp xr i b (BoxCell b iBox j) = Some b1"
      and 2: "propagate_unless_self sp xr i b1 (ColCell b1 iCol j) = Some b2"
      and 3: "propagate_unless_self sp xr i b2 (RowCell b2 iRow j) = Some r"
    by (auto simp: propagate_peers_def split: option.splits)
  from propagate_unless_self_mono [OF le 1] propagate_unless_self_mono [OF le 2]
    propagate_unless_self_mono [OF le 3]
  show ?thesis by (simp add: propagate_peers_def)
qed

lemma fold_option_mono:
  assumes "\<And>x s r. f x s = Some r \<Longrightarrow> g x s = Some r"
  shows "fold_option f xs s = Some r \<Longrightarrow> fold_option g xs s = Some r"
proof (induction xs arbitrary: s)
  case Nil
  then show ?case by simp
next
  case (Cons x xs)
  then obtain s1 where 1: "f x s = Some s1" and 2: "fold_option f xs s1 = Some r"
    by (auto split: option.splits)
  from assms [OF 1] Cons.IH [OF 2] show ?case by simp
qed

lemma SetCellAndPropagate_Suc:
  "SetCellAndPropagate d xr b i v = Some r \<Longrightarrow> SetCellAndPropagate (Suc d) xr b i v = Some r"
proof (induction d arbitrary: b i v r)
  case 0
  then show ?case by simp
next
  case (Suc d)
  have le: "le_sp (SetCellAndPropagate d xr) (SetCellAndPropagate (Suc d) xr)"
    unfolding le_sp_def using Suc.IH by blast
  show ?case
  proof (cases "Fixed (GetCell b i)")
    case True
    with Suc.prems show ?thesis by simp
  next
    case False
    let ?b1 = "IncrementFixedCells (SetCellDirect b i v)"
    from False Suc.prems
    have "fold_option
            (propagate_peers (SetCellAndPropagate d xr) xr i
               (BoxForCell ?b1 i) (ColForCell ?b1 i) (RowForCell ?b1 i))
            [0..<GetNumUnits ?b1] ?b1 = Some r"
      by (simp add: Let_def)
    then have "fold_option
            (propagate_peers (SetCellAndPropagate (Suc d) xr) xr i
               (BoxForCell ?b1 i) (ColForCell ?b1 i) (RowForCell ?b1 i))
            [0..<GetNumUnits ?b1] ?b1 = Some r"
      by (rule fold_option_mono [rotated]) (rule propagate_peers_mono [OF le])
    with False show ?thesis by (simp add: Let_def)
  qed
qed

lemma SetCellAndPropagate_add:
  "SetCellAndPropagate d xr b i v = Some r \<Longrightarrow> SetCellAndPropagate (d + k) xr b i v = Some r"
proof (induction k)
  case 0
  then show ?case by simp
next
  case (Suc k)
  then have "SetCellAndPropagate (Suc (d + k)) xr b i v = Some r"
    by (intro SetCellAndPropagate_Suc) simp
  then show ?case by (simp only: add_Suc_right)
qed

lemma SetCellAndPropagate_deeper:
  assumes "d \<le> d'" and "SetCellAndPropagate d xr b i v = Some r"
  shows "SetCellAndPropagate d' xr b i v = Some r"
proof -
  from assms(1) have "d' = d + (d' - d)" by simp
  with SetCellAndPropagate_add [OF assms(2), of "d' - d"] show ?thesis by simp
qed

lemma le_sp_deeper: "d \<le> d' \<Longrightarrow> le_sp (SetCellAndPropagate d xr) (SetCellAndPropagate d' xr)"
  unfolding le_sp_def by (blast intro: SetCellAndPropagate_deeper)

lemma total_on_deeper:
  assumes "Suc m \<le> d"
  shows "total_on m (SetCellAndPropagate d xr)"
proof -
  have "SetCellAndPropagate d xr b i v \<noteq> None" if "shape_within m b" "i < numCells b" "Fixed v" for b i v
  proof -
    from total_onD1 [OF SetCellAndPropagate_total that]
    obtain b' where "SetCellAndPropagate (Suc m) xr b i v = Some b'" ..
    from SetCellAndPropagate_deeper [OF assms this] show ?thesis by simp
  qed
  then show ?thesis
    unfolding total_on_def by (blast intro: SetCellAndPropagate_keeps)
qed

lemma shape_within_self: "board_shape b \<Longrightarrow> shape_within (unfixed b) b"
  by (simp add: shape_within_def)

lemma set_cell_unfixed_le:
  assumes "\<not> Fixed (GetCell b i)"
  shows "unfixed (IncrementFixedCells (SetCellDirect b i v)) \<le> unfixed b"
proof -
  let ?b1 = "IncrementFixedCells (SetCellDirect b i v)"
  have "{j. j < length (cells ?b1) \<and> \<not> Fixed (cells ?b1 ! j)}
      \<subseteq> {j. j < length (cells b) \<and> \<not> Fixed (cells b ! j)}"
    using assms
    by (auto simp: IncrementFixedCells_def SetCellDirect_def GetCell_def)
      (metis nth_list_update_neq)
  then show ?thesis
    unfolding unfixed_card by (intro card_mono) simp_all
qed

lemma SetCellAndPropagate_fixed:
  "Fixed (GetCell b i) \<Longrightarrow> SetCellAndPropagate (Suc d) xr b i v = Some b"
  by simp

lemma SetCellAndPropagate_returns:
  assumes sh: "board_shape b" and i: "i < numCells b"
  shows "\<exists>b'. \<forall>d \<ge> unfixed b + 2. SetCellAndPropagate d xr b i v = Some b'"
proof -
  define m where "m = unfixed b"
  have "\<exists>b'. SetCellAndPropagate (Suc (Suc m)) xr b i v = Some b'"
  proof (cases "Fixed (GetCell b i)")
    case True
    then have "SetCellAndPropagate (Suc (Suc m)) xr b i v = Some b"
      by (rule SetCellAndPropagate_fixed)
    then show ?thesis ..
  next
    case False
    let ?b1 = "IncrementFixedCells (SetCellDirect b i v)"
    from sh have "board_shape ?b1"
      by (simp add: board_shape_def IncrementFixedCells_def SetCellDirect_def)
    with set_cell_unfixed_le [OF False, of v] have "shape_within m ?b1" by (simp add: shape_within_def m_def)
    with SetCellAndPropagate_total show ?thesis
      using i sh by (rule set_cell_step)
  qed
  then obtain b' where run: "SetCellAndPropagate (Suc (Suc m)) xr b i v = Some b'" ..
  have "SetCellAndPropagate d xr b i v = Some b'" if "unfixed b + 2 \<le> d" for d
  proof -
    from that have "Suc (Suc m) \<le> d" by (simp add: m_def)
    then show ?thesis using run by (rule SetCellAndPropagate_deeper)
  qed
  then show ?thesis by blast
qed

lemma Rule1_returns:
  assumes sh: "board_shape b" and i: "i < numCells b"
  shows "\<exists>r. \<forall>d \<ge> unfixed b + 1. Rule1_Elimination (SetCellAndPropagate d xr) xr b i = Some r"
proof -
  define m where "m = unfixed b"
  from sh have "shape_within m b" by (simp add: shape_within_def m_def)
  with SetCellAndPropagate_total
  have "\<exists>b' r. Rule1_Elimination (SetCellAndPropagate (Suc m) xr) xr b i = Some (b', r)"
    using i by (rule Rule1_total)
  then obtain r where r: "Rule1_Elimination (SetCellAndPropagate (Suc m) xr) xr b i = Some r"
    by blast
  have "Rule1_Elimination (SetCellAndPropagate d xr) xr b i = Some r" if "unfixed b + 1 \<le> d" for d
  proof -
    from that have "Suc m \<le> d" by (simp add: m_def)
    then have "le_sp (SetCellAndPropagate (Suc m) xr) (SetCellAndPropagate d xr)"
      by (rule le_sp_deeper)
    then show ?thesis using r by (rule Rule1_mono)
  qed
  then show ?thesis by blast
qed

lemma Rule2_returns:
  assumes sh: "board_shape b" and i: "i < numCells b"
  shows "\<exists>r. \<forall>d \<ge> unfixed b + 1. Rule2_HiddenSingle (SetCellAndPropagate d xr) b i = Some r"
proof -
  define m where "m = unfixed b"
  from sh have "shape_within m b" by (simp add: shape_within_def m_def)
  with SetCellAndPropagate_total
  have "\<exists>b' r. Rule2_HiddenSingle (SetCellAndPropagate (Suc m) xr) b i = Some (b', r)"
    using i by (rule Rule2_total)
  then obtain r where r: "Rule2_HiddenSingle (SetCellAndPropagate (Suc m) xr) b i = Some r"
    by blast
  have "Rule2_HiddenSingle (SetCellAndPropagate d xr) b i = Some r" if "unfixed b + 1 \<le> d" for d
  proof -
    from that have "Suc m \<le> d" by (simp add: m_def)
    then have "le_sp (SetCellAndPropagate (Suc m) xr) (SetCellAndPropagate d xr)"
      by (rule le_sp_deeper)
    then show ?thesis using r by (rule Rule2_mono)
  qed
  then show ?thesis by blast
qed

lemma Propagate_returns:
  assumes sh: "board_shape b" and i: "i < numCells b"
  shows "\<exists>r. \<forall>d \<ge> unfixed b + 1. PropagateConstraints (SetCellAndPropagate d xr) xr b i = Some r"
proof -
  define m where "m = unfixed b"
  from sh have "shape_within m b" by (simp add: shape_within_def m_def)
  with SetCellAndPropagate_total
  have "\<exists>b'. PropagateConstraints (SetCellAndPropagate (Suc m) xr) xr b i = Some b'"
    using i by (rule Propagate_total)
  then obtain r where r: "PropagateConstraints (SetCellAndPropagate (Suc m) xr) xr b i = Some r"
    by blast
  have "PropagateConstraints (SetCellAndPropagate d xr) xr b i = Some r"
    if "unfixed b + 1 \<le> d" for d
  proof -
    from that have "Suc m \<le> d" by (simp add: m_def)
    then have "le_sp (SetCellAndPropagate (Suc m) xr) (SetCellAndPropagate d xr)"
      by (rule le_sp_deeper)
    then show ?thesis using r by (rule Propagate_mono)
  qed
  then show ?thesis by blast
qed

lemma apply_cp_op_returns:
  assumes sh: "board_shape b" and i: "op_cell op < numCells b" and d: "unfixed b + 2 \<le> d"
  shows "\<exists>b'. apply_cp_op d xr op b = Some b'"
proof -
  from d have d1: "unfixed b + 1 \<le> d" by simp
  show ?thesis
  proof (cases op)
    case (OpRule1 k)
    with i have "k < numCells b" by simp
    with sh obtain r where
      "\<forall>d \<ge> unfixed b + 1. Rule1_Elimination (SetCellAndPropagate d xr) xr b k = Some r"
      using Rule1_returns by blast
    with d1 have "Rule1_Elimination (SetCellAndPropagate d xr) xr b k = Some r" by blast
    with OpRule1 show ?thesis by simp
  next
    case (OpRule2 k)
    with i have "k < numCells b" by simp
    with sh obtain r where
      "\<forall>d \<ge> unfixed b + 1. Rule2_HiddenSingle (SetCellAndPropagate d xr) b k = Some r"
      using Rule2_returns by blast
    with d1 have "Rule2_HiddenSingle (SetCellAndPropagate d xr) b k = Some r" by blast
    with OpRule2 show ?thesis by simp
  next
    case (OpPropagate k)
    with i have "k < numCells b" by simp
    with sh obtain r where
      "\<forall>d \<ge> unfixed b + 1. PropagateConstraints (SetCellAndPropagate d xr) xr b k = Some r"
      using Propagate_returns by blast
    with d1 have "PropagateConstraints (SetCellAndPropagate d xr) xr b k = Some r" by blast
    with OpPropagate show ?thesis by simp
  next
    case (OpSetCell k v)
    with i have "k < numCells b" by simp
    with sh obtain r where
      "\<forall>d \<ge> unfixed b + 2. SetCellAndPropagate d xr b k v = Some r"
      using SetCellAndPropagate_returns by blast
    with d have "SetCellAndPropagate d xr b k v = Some r" by blast
    with OpSetCell show ?thesis by simp
  qed
qed

lemma run_cp_ops_returns:
  assumes "board_shape b" and "\<forall>op \<in> set ops. op_cell op < numCells b"
      and "unfixed b + 2 \<le> d"
  shows "\<exists>b'. run_cp_ops d xr ops b = Some b'"
  using assms
proof (induction ops arbitrary: b)
  case Nil
  then show ?case by (simp add: run_cp_ops_def)
next
  case (Cons op ops)
  from Cons.prems have "op_cell op < numCells b" by simp
  with Cons.prems(1) obtain b1 where b1: "apply_cp_op d xr op b = Some b1"
    using apply_cp_op_returns [OF _ _ Cons.prems(3)] by blast
  then have k: "keeps_fixed b b1" by (rule apply_cp_op_keeps)
  then have "board_shape b1" using Cons.prems(1) by (rule keeps_fixed_shape)
  moreover from k have "numCells b1 = numCells b" by (simp add: keeps_fixed_def)
  with Cons.prems(2) have "\<forall>op \<in> set ops. op_cell op < numCells b1" by simp
  moreover from keeps_fixed_unfixed [OF k] Cons.prems(3) have "unfixed b1 + 2 \<le> d" by simp
  ultimately obtain b' where "run_cp_ops d xr ops b1 = Some b'"
    using Cons.IH by blast
  with b1 show ?case by (simp add: run_cp_ops_def)
qed

section \<open>The values fixed among the peers\<close>

lemma fixed_of_Un: "fixed_of b i f (A \<union> B) = fixed_of b i f A \<union> fixed_of b i f B"
  by (auto simp: fixed_of_def)

lemma Rule1_loop:
  "fold (\<lambda>j (colFixed, rowFixed, boxFixed).
           (if fc j \<noteq> i \<and> Fixed (GetCell b (fc j))
            then vs_plus colFixed (GetCell b (fc j)) else colFixed,
            if fr j \<noteq> i \<and> Fixed (GetCell b (fr j))
            then vs_plus rowFixed (GetCell b (fr j)) else rowFixed,
            if fb j \<noteq> i \<and> Fixed (GetCell b (fb j))
            then vs_plus boxFixed (GetCell b (fb j)) else boxFixed))
     js (c, r, x)
   = (c\<lparr>members := members c \<union> fixed_of b i fc (set js)\<rparr>,
      r\<lparr>members := members r \<union> fixed_of b i fr (set js)\<rparr>,
      x\<lparr>members := members x \<union> fixed_of b i fb (set js)\<rparr>)"
  (is "fold ?g js (c, r, x) = _")
proof (induction js arbitrary: c r x)
  case Nil
  then show ?case by (simp add: fixed_of_def)
next
  case (Cons j js)
  let ?c1 = "c\<lparr>members := members c \<union> fixed_of b i fc {j}\<rparr>"
  let ?r1 = "r\<lparr>members := members r \<union> fixed_of b i fr {j}\<rparr>"
  let ?x1 = "x\<lparr>members := members x \<union> fixed_of b i fb {j}\<rparr>"
  have step: "?g j (c, r, x) = (?c1, ?r1, ?x1)"
    by (simp add: vs_plus_def fixed_of_def)
  have split: "set (j # js) = {j} \<union> set js" by simp
  have "fold ?g (j # js) (c, r, x) = fold ?g js (?g j (c, r, x))" by simp
  also have "\<dots> = fold ?g js (?c1, ?r1, ?x1)" by (simp only: step)
  also have "\<dots> = (?c1\<lparr>members := members ?c1 \<union> fixed_of b i fc (set js)\<rparr>,
      ?r1\<lparr>members := members ?r1 \<union> fixed_of b i fr (set js)\<rparr>,
      ?x1\<lparr>members := members ?x1 \<union> fixed_of b i fb (set js)\<rparr>)"
    by (rule Cons.IH)
  also have "\<dots> = (c\<lparr>members := members c \<union> fixed_of b i fc (set (j # js))\<rparr>,
      r\<lparr>members := members r \<union> fixed_of b i fr (set (j # js))\<rparr>,
      x\<lparr>members := members x \<union> fixed_of b i fb (set (j # js))\<rparr>)"
    unfolding split fixed_of_Un by (simp add: Un_assoc)
  finally show ?case .
qed

lemma fixed_of_peers:
  "fixed_of b i (RowCell b (RowForCell b i)) {0..<numUnits b}
     \<union> fixed_of b i (ColCell b (ColForCell b i)) {0..<numUnits b}
     \<union> fixed_of b i (BoxCell b (BoxForCell b i)) {0..<numUnits b}
   = fixed_peer_values b i"
  by (auto simp: fixed_of_def fixed_peer_values_def unit_peers_def split: if_splits)

lemma fixedCellsConstraint_eq: "fixedCellsConstraint b i = not_fixed_values b i"
proof -
  have "Rule1_collect b i =
      (\<lparr>maxVal = numUnits b,
         members = fixed_of b i (ColCell b (ColForCell b i)) {0..<numUnits b}\<rparr>,
       \<lparr>maxVal = numUnits b,
         members = fixed_of b i (RowCell b (RowForCell b i)) {0..<numUnits b}\<rparr>,
       \<lparr>maxVal = numUnits b,
         members = fixed_of b i (BoxCell b (BoxForCell b i)) {0..<numUnits b}\<rparr>)"
    unfolding Rule1_collect_def Let_def GetNumUnits_def
    by (simp only: Rule1_loop) (simp add: Init_def)
  then show ?thesis
    by (simp add: fixedCellsConstraint_def not_fixed_values_def vs_compl_def vs_plus_def
        fixed_of_peers [symmetric])
qed

lemma SetCellAndPropagate_sets:
  assumes run: "SetCellAndPropagate depth xr board i v = Some board'"
      and nf: "\<not> Fixed (GetCell board i)" and fv: "Fixed v" and i: "i < length (cells board)"
  shows "GetCell board' i = v \<and> numFixedCells board < numFixedCells board'"
proof (cases depth)
  case 0
  with run show ?thesis by simp
next
  case (Suc d)
  let ?b1 = "IncrementFixedCells (SetCellDirect board i v)"
  from run nf Suc
  have "fold_option
          (propagate_peers (SetCellAndPropagate d xr) xr i
             (BoxForCell ?b1 i) (ColForCell ?b1 i) (RowForCell ?b1 i))
          [0..<GetNumUnits ?b1] ?b1 = Some board'"
    by (simp add: Let_def)
  then have keeps: "keeps_fixed ?b1 board'"
  proof (rule fold_option_keeps [rotated])
    fix x s s'
    assume "propagate_peers (SetCellAndPropagate d xr) xr i
              (BoxForCell ?b1 i) (ColForCell ?b1 i) (RowForCell ?b1 i) x s = Some s'"
    then show "keeps_fixed s s'"
      by (rule propagate_peers_keeps [rotated]) (rule SetCellAndPropagate_keeps)
  qed
  from i have "GetCell ?b1 i = v"
    by (simp add: IncrementFixedCells_def SetCellDirect_def GetCell_def)
  moreover have "numFixedCells ?b1 = numFixedCells board + 1"
    by (simp add: IncrementFixedCells_def SetCellDirect_def)
  ultimately show ?thesis
    using keeps fv by (auto simp: keeps_fixed_def)
qed

section \<open>The invariant of constraint propagation\<close>

text \<open>Fixed cells are never written again, so the values fixed among the peers of a cell
  only grow; with \<open>^\<close> read as intersection every write to a cell that is not fixed
  keeps the invariant, and every write but the first of a call of
  \<open>SetCellAndPropagate\<close> stores a subset of the old candidates.\<close>

lemma unit_peers_keeps: "keeps_fixed b b' \<Longrightarrow> unit_peers b' i = unit_peers b i"
  by (simp add: keeps_fixed_def unit_peers_def BoxCell_def ColCell_def RowCell_def
      BoxForCell_def ColForCell_def RowForCell_def)

lemma fixed_peer_mono:
  assumes "keeps_fixed b b'"
  shows "fixed_peer_values b i \<subseteq> fixed_peer_values b' i"
proof
  fix d assume "d \<in> fixed_peer_values b i"
  then obtain k where k: "k \<in> unit_peers b i" "Fixed (GetCell b k)" "d \<in> members (GetCell b k)"
    by (auto simp: fixed_peer_values_def)
  from assms k(2) have "GetCell b' k = GetCell b k" by (simp add: keeps_fixed_def)
  with k unit_peers_keeps [OF assms, of i] show "d \<in> fixed_peer_values b' i"
    by (auto simp: fixed_peer_values_def)
qed

lemma cp_invariantD:
  assumes "cp_invariant b" "i < numCells b"
  shows "maxVal (GetCell b i) = numUnits b" "members (GetCell b i) \<subseteq> {0..<numUnits b}"
    "\<not> Fixed (GetCell b i) \<Longrightarrow> {0..<numUnits b} - members (GetCell b i) \<subseteq> fixed_peer_values b i"
  using assms by (auto simp: cp_invariant_def)

lemma cp_invariant_shape: "cp_invariant b \<Longrightarrow> board_shape b"
  by (simp add: cp_invariant_def)

lemma cp_invariant_update:
  assumes inv: "cp_invariant b" and i: "i < numCells b" and nf: "\<not> Fixed (GetCell b i)"
      and mv: "maxVal v = numUnits b" and rng: "members v \<subseteq> {0..<numUnits b}"
      and lacks: "Fixed v \<or> {0..<numUnits b} - members v \<subseteq> fixed_peer_values b i"
  shows "cp_invariant (SetCellDirect b i v)"
proof -
  let ?b' = "SetCellDirect b i v"
  have k: "keeps_fixed b ?b'" using nf by (rule keeps_fixed_SetCellDirect)
  from inv have sh: "board_shape b" by (rule cp_invariant_shape)
  then have sh': "board_shape ?b'" using k by (rule keeps_fixed_shape [rotated])
  from sh i have len: "i < length (cells b)" by (simp add: board_shape_def)
  have n: "numCells ?b' = numCells b" "numUnits ?b' = numUnits b"
    by (simp_all add: SetCellDirect_def)
  have "maxVal (GetCell ?b' j) = numUnits b
      \<and> members (GetCell ?b' j) \<subseteq> {0..<numUnits b}
      \<and> (Fixed (GetCell ?b' j)
           \<or> {0..<numUnits b} - members (GetCell ?b' j) \<subseteq> fixed_peer_values ?b' j)"
    if j: "j < numCells b" for j
  proof (cases "j = i")
    case True
    with len have c: "GetCell ?b' j = v" by (simp add: SetCellDirect_def GetCell_def)
    from lacks fixed_peer_mono [OF k, of i] True
    have "Fixed v \<or> {0..<numUnits b} - members v \<subseteq> fixed_peer_values ?b' j" by blast
    with c mv rng show ?thesis by simp
  next
    case False
    then have c: "GetCell ?b' j = GetCell b j" by (simp add: SetCellDirect_def GetCell_def)
    from cp_invariantD [OF inv j] fixed_peer_mono [OF k, of j] c show ?thesis by auto
  qed
  with sh' n show ?thesis by (simp add: cp_invariant_def)
qed

lemma fixed_peer_values_IncrementFixedCells [simp]:
  "fixed_peer_values (IncrementFixedCells b) i = fixed_peer_values b i"
  by (simp add: fixed_peer_values_def unit_peers_def IncrementFixedCells_def GetCell_def
      BoxCell_def ColCell_def RowCell_def BoxForCell_def ColForCell_def RowForCell_def)

lemma fixed_peer_values_IncrementInfeasible [simp]:
  "fixed_peer_values (IncrementInfeasible b) i = fixed_peer_values b i"
  by (simp add: fixed_peer_values_def unit_peers_def IncrementInfeasible_def GetCell_def
      BoxCell_def ColCell_def RowCell_def BoxForCell_def ColForCell_def RowForCell_def)

lemma cp_invariant_IncrementFixedCells [simp]:
  "cp_invariant (IncrementFixedCells b) = cp_invariant b"
  unfolding cp_invariant_def fixed_peer_values_IncrementFixedCells
  by (simp add: IncrementFixedCells_def GetCell_def board_shape_def)

lemma cp_invariant_IncrementInfeasible [simp]:
  "cp_invariant (IncrementInfeasible b) = cp_invariant b"
  unfolding cp_invariant_def fixed_peer_values_IncrementInfeasible
  by (simp add: IncrementInfeasible_def GetCell_def board_shape_def)

lemma refines_refl: "cp_invariant b \<Longrightarrow> refines_except T b b"
  by (simp add: refines_except_def keeps_fixed_refl)

lemma refines_trans:
  assumes "refines_except T a b" "refines_except T' b c"
  shows "refines_except (T \<union> T') a c"
proof -
  from assms have n: "numCells b = numCells a" by (simp add: refines_except_def keeps_fixed_def)
  from assms have "keeps_fixed a c" by (auto simp: refines_except_def intro: keeps_fixed_trans)
  moreover have "members (GetCell c j) \<subseteq> members (GetCell a j)"
    if "j \<in> {0..<numCells a} - (T \<union> T')" for j
  proof -
    from that n assms(2) have "members (GetCell c j) \<subseteq> members (GetCell b j)"
      by (simp add: refines_except_def)
    moreover from that assms(1) have "members (GetCell b j) \<subseteq> members (GetCell a j)"
      by (simp add: refines_except_def)
    ultimately show ?thesis by simp
  qed
  ultimately show ?thesis using assms(2) by (simp add: refines_except_def)
qed

lemma refines_trans0:
  "refines_except {} a b \<Longrightarrow> refines_except {} b c \<Longrightarrow> refines_except {} a c"
  using refines_trans [of "{}" a b "{}" c] by simp

lemma refinesD:
  assumes "refines_except T b b'"
  shows "keeps_fixed b b'" "cp_invariant b'" "numCells b' = numCells b"
    "numUnits b' = numUnits b"
  using assms by (simp_all add: refines_except_def keeps_fixed_def)

lemma refines_counter_fixed:
  "cp_invariant b \<Longrightarrow> refines_except T b (IncrementFixedCells b)"
  by (simp add: refines_except_def keeps_fixed_IncrementFixedCells)
    (simp add: IncrementFixedCells_def GetCell_def)

lemma refines_counter_infeasible:
  "cp_invariant b \<Longrightarrow> refines_except T b (IncrementInfeasible b)"
  by (simp add: refines_except_def keeps_fixed_IncrementInfeasible)
    (simp add: IncrementInfeasible_def GetCell_def)

lemma refines_update:
  assumes inv: "cp_invariant b" and i: "i < numCells b" and nf: "\<not> Fixed (GetCell b i)"
      and mv: "maxVal v = numUnits b" and rng: "members v \<subseteq> {0..<numUnits b}"
      and lacks: "Fixed v \<or> {0..<numUnits b} - members v \<subseteq> fixed_peer_values b i"
      and sub: "i \<in> T \<or> members v \<subseteq> members (GetCell b i)"
  shows "refines_except T b (SetCellDirect b i v)"
proof -
  let ?b' = "SetCellDirect b i v"
  from inv have "board_shape b" by (rule cp_invariant_shape)
  with i have len: "i < length (cells b)" by (simp add: board_shape_def)
  have "members (GetCell ?b' j) \<subseteq> members (GetCell b j)" if "j \<in> {0..<numCells b} - T" for j
  proof (cases "j = i")
    case True
    with len have "GetCell ?b' j = v" by (simp add: SetCellDirect_def GetCell_def)
    with True that sub show ?thesis by auto
  next
    case False
    then show ?thesis by (simp add: SetCellDirect_def GetCell_def)
  qed
  with keeps_fixed_SetCellDirect [OF nf] cp_invariant_update [OF inv i nf mv rng lacks]
  show ?thesis by (simp add: refines_except_def)
qed

lemma sp_refinesD:
  "sp_refines sp \<Longrightarrow> cp_invariant b \<Longrightarrow> i < numCells b \<Longrightarrow> good_value b v
    \<Longrightarrow> members v \<subseteq> members (GetCell b i) \<Longrightarrow> sp b i v = Some b' \<Longrightarrow> refines_except {} b b'"
  unfolding sp_refines_def by blast

lemma not_fixed_values_within:
  assumes inv: "cp_invariant b" and i: "i < numCells b" and nf: "\<not> Fixed (GetCell b i)"
  shows "members (not_fixed_values b i) \<subseteq> members (GetCell b i)"
  using cp_invariantD(3) [OF inv i nf] by (auto simp: not_fixed_values_def)

lemma reduced_cell_eq:
  assumes inv: "cp_invariant b" and i: "i < numCells b" and nf: "\<not> Fixed (GetCell b i)"
  shows "vs_minus (GetCell b i) (fixed_values b i) = not_fixed_values b i"
    and "vs_inter (GetCell b i) (not_fixed_values b i) = not_fixed_values b i"
proof -
  from cp_invariantD [OF inv i] nf
  have m: "maxVal (GetCell b i) = numUnits b"
    and r: "members (GetCell b i) \<subseteq> {0..<numUnits b}"
    and l: "{0..<numUnits b} - members (GetCell b i) \<subseteq> fixed_peer_values b i"
    by simp_all
  from r l have "members (GetCell b i) - fixed_peer_values b i
      = {0..<numUnits b} - fixed_peer_values b i" by auto
  with m show "vs_minus (GetCell b i) (fixed_values b i) = not_fixed_values b i"
    by (simp add: vs_minus_def fixed_values_def not_fixed_values_def)
  from r l have "members (GetCell b i) \<inter> ({0..<numUnits b} - fixed_peer_values b i)
      = {0..<numUnits b} - fixed_peer_values b i" by auto
  with m show "vs_inter (GetCell b i) (not_fixed_values b i) = not_fixed_values b i"
    by (simp add: vs_inter_def not_fixed_values_def)
qed

lemma Rule1_refines:
  assumes sp: "sp_refines sp" and inv: "cp_invariant b" and i: "i < numCells b"
      and r: "Rule1_Elimination sp vs_inter b i = Some (b', res)"
  shows "refines_except {} b b'"
proof (cases "Empty (GetCell b i) \<or> Fixed (GetCell b i)")
  case True
  with r have "b' = b" by (auto simp: Rule1_Elimination_def)
  with inv show ?thesis by (simp add: refines_refl)
next
  case False
  then have nf: "\<not> Fixed (GetCell b i)" by simp
  let ?v = "not_fixed_values b i"
  note within = not_fixed_values_within [OF inv i nf]
  show ?thesis
  proof (cases "Fixed ?v")
    case True
    with r False have call: "sp b i ?v = Some b'"
      by (auto simp: Rule1_Elimination_def Let_def fixedCellsConstraint_eq split: option.splits)
    from True have "good_value b ?v" by (auto simp: good_value_def not_fixed_values_def)
    with sp inv i show ?thesis using within call by (rule sp_refinesD)
  next
    case nfv: False
    with r False have b': "b' = SetCellDirect b i (vs_inter (GetCell b i) ?v)"
      by (auto simp: Rule1_Elimination_def Let_def fixedCellsConstraint_eq)
    also have "\<dots> = SetCellDirect b i ?v" by (simp only: reduced_cell_eq(2) [OF inv i nf])
    finally have b': "b' = SetCellDirect b i ?v" .
    have "refines_except {} b (SetCellDirect b i ?v)"
      using inv i nf
    proof (rule refines_update)
      show "maxVal ?v = numUnits b" by (simp add: not_fixed_values_def)
      show "members ?v \<subseteq> {0..<numUnits b}" by (auto simp: not_fixed_values_def)
      show "Fixed ?v \<or> {0..<numUnits b} - members ?v \<subseteq> fixed_peer_values b i"
        by (auto simp: not_fixed_values_def)
      from within show "i \<in> {} \<or> members ?v \<subseteq> members (GetCell b i)" by simp
    qed
    with b' show ?thesis by simp
  qed
qed

lemma Rule2_refines:
  assumes sp: "sp_refines sp" and inv: "cp_invariant b" and i: "i < numCells b"
      and r: "Rule2_HiddenSingle sp b i = Some (b', res)"
  shows "refines_except {} b b'"
proof (cases "Empty (GetCell b i) \<or> Fixed (GetCell b i)")
  case True
  with r have "b' = b" by (auto simp: Rule2_HiddenSingle_def)
  with inv show ?thesis by (simp add: refines_refl)
next
  case False
  obtain colAll rowAll boxAll where coll: "Rule2_collect b i = (colAll, rowAll, boxAll)"
    by (cases "Rule2_collect b i") auto
  have call: "refines_except {} b b'"
    if "Fixed (vs_minus (GetCell b i) u)" "sp b i (vs_minus (GetCell b i) u) = Some b'" for u
  proof -
    from cp_invariantD(1,2) [OF inv i] that(1)
    have "good_value b (vs_minus (GetCell b i) u)"
      by (auto simp: good_value_def vs_minus_def)
    moreover have "members (vs_minus (GetCell b i) u) \<subseteq> members (GetCell b i)"
      by (auto simp: vs_minus_def)
    ultimately show ?thesis using sp inv i that(2) by (intro sp_refinesD [of sp b i]) 
  qed
  consider (row) "Fixed (vs_minus (GetCell b i) rowAll)"
    | (col) "\<not> Fixed (vs_minus (GetCell b i) rowAll)" "Fixed (vs_minus (GetCell b i) colAll)"
    | (box) "\<not> Fixed (vs_minus (GetCell b i) rowAll)" "\<not> Fixed (vs_minus (GetCell b i) colAll)"
        "Fixed (vs_minus (GetCell b i) boxAll)"
    | (none) "\<not> Fixed (vs_minus (GetCell b i) rowAll)" "\<not> Fixed (vs_minus (GetCell b i) colAll)"
        "\<not> Fixed (vs_minus (GetCell b i) boxAll)"
    by blast
  then show ?thesis
  proof cases
    case row
    with r False coll have "sp b i (vs_minus (GetCell b i) rowAll) = Some b'"
      by (auto simp: Rule2_HiddenSingle_def)
    with row show ?thesis by (rule call)
  next
    case col
    with r False coll have "sp b i (vs_minus (GetCell b i) colAll) = Some b'"
      by (auto simp: Rule2_HiddenSingle_def)
    with col(2) show ?thesis by (rule call)
  next
    case box
    with r False coll have "sp b i (vs_minus (GetCell b i) boxAll) = Some b'"
      by (auto simp: Rule2_HiddenSingle_def)
    with box(3) show ?thesis by (rule call)
  next
    case none
    with r False coll have "b' = b" by (auto simp: Rule2_HiddenSingle_def)
    with inv show ?thesis by (simp add: refines_refl)
  qed
qed

lemma Propagate_refines:
  assumes sp: "sp_refines sp" and inv: "cp_invariant b" and i: "i < numCells b"
      and r: "PropagateConstraints sp vs_inter b i = Some b'"
  shows "refines_except {} b b'"
proof (cases "Empty (GetCell b i) \<or> Fixed (GetCell b i)")
  case True
  with r have "b' = b" by (simp add: PropagateConstraints_def)
  with inv show ?thesis by (simp add: refines_refl)
next
  case False
  with r obtain b1 res where r1: "Rule1_Elimination sp vs_inter b i = Some (b1, res)"
    by (auto simp: PropagateConstraints_def split: option.splits)
  note ref1 = Rule1_refines [OF sp inv i r1]
  show ?thesis
  proof (cases res)
    case True
    with r r1 False ref1 show ?thesis by (simp add: PropagateConstraints_def)
  next
    case nofix: False
    with r r1 False obtain b2 res2 where r2: "Rule2_HiddenSingle sp b1 i = Some (b2, res2)"
      and out: "b' = (if Empty (GetCell b2 i) then IncrementInfeasible b2 else b2)"
      by (auto simp: PropagateConstraints_def split: option.splits)
    from refinesD [OF ref1] i have inv1: "cp_invariant b1" and i1: "i < numCells b1" by simp_all
    note ref2 = Rule2_refines [OF sp inv1 i1 r2]
    from refinesD(2) [OF ref2] out have "refines_except {} b2 b'"
      by (simp add: refines_refl refines_counter_infeasible)
    with ref1 ref2 show ?thesis by (blast intro: refines_trans0)
  qed
qed

lemma propagate_unless_self_refines:
  assumes sp: "sp_refines sp" and inv: "cp_invariant b" and k: "k < numCells b"
      and r: "propagate_unless_self sp vs_inter i b k = Some b'"
  shows "refines_except {} b b'"
proof (cases "k \<noteq> i")
  case True
  with r have "PropagateConstraints sp vs_inter b k = Some b'"
    by (simp add: propagate_unless_self_def)
  with sp inv k show ?thesis by (rule Propagate_refines)
next
  case False
  with r inv show ?thesis by (simp add: propagate_unless_self_def refines_refl)
qed

lemma propagate_peers_refines:
  assumes sp: "sp_refines sp" and inv: "cp_invariant b"
      and u: "iBox < numUnits b" "iCol < numUnits b" "iRow < numUnits b" and j: "j < numUnits b"
      and r: "propagate_peers sp vs_inter i iBox iCol iRow j b = Some b'"
  shows "refines_except {} b b'"
proof -
  from r obtain b1 b2
    where 1: "propagate_unless_self sp vs_inter i b (BoxCell b iBox j) = Some b1"
      and 2: "propagate_unless_self sp vs_inter i b1 (ColCell b1 iCol j) = Some b2"
      and 3: "propagate_unless_self sp vs_inter i b2 (RowCell b2 iRow j) = Some b'"
    by (auto simp: propagate_peers_def split: option.splits)
  from inv have sh: "board_shape b" by (rule cp_invariant_shape)
  note ref1 = propagate_unless_self_refines [OF sp inv BoxCell_in_range [OF sh u(1) j] 1]
  from refinesD [OF ref1] have inv1: "cp_invariant b1" and n1: "numUnits b1 = numUnits b"
    by simp_all
  from inv1 have sh1: "board_shape b1" by (rule cp_invariant_shape)
  from u j n1 have in1: "iCol < numUnits b1" "j < numUnits b1" by simp_all
  note ref2 = propagate_unless_self_refines [OF sp inv1 ColCell_in_range [OF sh1 in1] 2]
  from refinesD [OF ref2] have inv2: "cp_invariant b2" and n2: "numUnits b2 = numUnits b1"
    by simp_all
  from inv2 have sh2: "board_shape b2" by (rule cp_invariant_shape)
  from u j n1 n2 have in2: "iRow < numUnits b2" "j < numUnits b2" by simp_all
  note ref3 = propagate_unless_self_refines [OF sp inv2 RowCell_in_range [OF sh2 in2] 3]
  from ref1 ref2 ref3 show ?thesis by (blast intro: refines_trans0)
qed

lemma fold_peers_refines:
  assumes sp: "sp_refines sp"
  shows "cp_invariant b \<Longrightarrow> iBox < numUnits b \<Longrightarrow> iCol < numUnits b \<Longrightarrow> iRow < numUnits b
    \<Longrightarrow> \<forall>j \<in> set js. j < numUnits b
    \<Longrightarrow> fold_option (propagate_peers sp vs_inter i iBox iCol iRow) js b = Some b'
    \<Longrightarrow> refines_except {} b b'"
proof (induction js arbitrary: b)
  case Nil
  then show ?case by (simp add: refines_refl)
next
  case (Cons j js)
  from Cons.prems have j: "j < numUnits b" by simp
  from Cons.prems(6) obtain b1
    where 1: "propagate_peers sp vs_inter i iBox iCol iRow j b = Some b1"
      and rest: "fold_option (propagate_peers sp vs_inter i iBox iCol iRow) js b1 = Some b'"
    by (auto split: option.splits)
  note ref1 = propagate_peers_refines [OF sp Cons.prems(1-4) j 1]
  from refinesD [OF ref1] have inv1: "cp_invariant b1" and n1: "numUnits b1 = numUnits b"
    by simp_all
  from Cons.prems n1 have "refines_except {} b1 b'"
    by (intro Cons.IH inv1 rest) simp_all
  with ref1 show ?case by (rule refines_trans0)
qed

lemma set_cell_refines:
  assumes sp: "sp_refines (SetCellAndPropagate d vs_inter)"
      and inv: "cp_invariant b" and i: "i < numCells b" and v: "good_value b v"
      and sub: "i \<in> T \<or> Fixed (GetCell b i) \<or> members v \<subseteq> members (GetCell b i)"
      and r: "SetCellAndPropagate (Suc d) vs_inter b i v = Some b'"
  shows "refines_except T b b'"
proof (cases "Fixed (GetCell b i)")
  case True
  with r have "b' = b" by simp
  with inv show ?thesis by (simp add: refines_refl)
next
  case False
  let ?b0 = "SetCellDirect b i v"
  let ?b1 = "IncrementFixedCells ?b0"
  from v have gv: "Fixed v" "maxVal v = numUnits b" "members v \<subseteq> {0..<numUnits b}"
    by (simp_all add: good_value_def)
  from sub False have sub': "i \<in> T \<or> members v \<subseteq> members (GetCell b i)" by simp
  have ref0: "refines_except T b ?b0"
    using inv i False gv(2,3) _ sub' by (rule refines_update) (simp add: gv(1))
  from refinesD(2) [OF ref0] have inv0: "cp_invariant ?b0" .
  then have ref01: "refines_except {} ?b0 ?b1" by (rule refines_counter_fixed)
  from inv0 have inv1: "cp_invariant ?b1" by simp
  then have sh1: "board_shape ?b1" by (rule cp_invariant_shape)
  have i1: "i < numCells ?b1" using i by (simp add: IncrementFixedCells_def SetCellDirect_def)
  from False r
  have run: "fold_option
          (propagate_peers (SetCellAndPropagate d vs_inter) vs_inter i
             (BoxForCell ?b1 i) (ColForCell ?b1 i) (RowForCell ?b1 i))
          [0..<GetNumUnits ?b1] ?b1 = Some b'"
    by (simp add: Let_def)
  have "refines_except {} ?b1 b'"
    using sp inv1 BoxForCell_in_range [OF sh1 i1] ColForCell_in_range [OF sh1 i1]
      RowForCell_in_range [OF sh1 i1] _ run
    by (rule fold_peers_refines) (simp add: GetNumUnits_def)
  with refines_trans [OF ref0 ref01] have "refines_except ((T \<union> {}) \<union> {}) b b'"
    by (rule refines_trans)
  then show ?thesis by simp
qed

lemma SetCellAndPropagate_sp_refines: "sp_refines (SetCellAndPropagate d vs_inter)"
proof (induction d)
  case 0
  show ?case by (simp add: sp_refines_def)
next
  case (Suc d)
  show ?case
    unfolding sp_refines_def
  proof (intro allI impI)
    fix b i v b'
    assume "cp_invariant b" "i < numCells b" "good_value b v"
      "members v \<subseteq> members (GetCell b i)"
      "SetCellAndPropagate (Suc d) vs_inter b i v = Some b'"
    with Suc.IH show "refines_except {} b b'"
      by (intro set_cell_refines [of d b i v "{}" b']) simp_all
  qed
qed

lemma SetCellAndPropagate_refines:
  assumes inv: "cp_invariant b" and i: "i < numCells b" and v: "good_value b v"
      and r: "SetCellAndPropagate d vs_inter b i v = Some b'"
  shows "refines_except
           (if Fixed (GetCell b i) \<or> members v \<subseteq> members (GetCell b i) then {} else {i}) b b'"
proof (cases d)
  case 0
  with r show ?thesis by simp
next
  case (Suc d')
  with r have r': "SetCellAndPropagate (Suc d') vs_inter b i v = Some b'" by simp
  show ?thesis
    by (rule set_cell_refines [OF SetCellAndPropagate_sp_refines inv i v _ r']) auto
qed

lemma refines_weaken: "refines_except T b b' \<Longrightarrow> T \<subseteq> T' \<Longrightarrow> refines_except T' b b'"
  by (auto simp: refines_except_def)

lemma apply_cp_op_refines:
  assumes inv: "cp_invariant b" and g: "good_op b op"
      and r: "apply_cp_op d vs_inter op b = Some b'"
      and T: "op_within b op \<or> set_cells [op] \<subseteq> T"
  shows "refines_except T b b'"
proof (cases op)
  case (OpRule1 i)
  with r obtain res
    where "Rule1_Elimination (SetCellAndPropagate d vs_inter) vs_inter b i = Some (b', res)"
    by auto
  with g OpRule1 have "refines_except {} b b'"
    by (intro Rule1_refines [OF SetCellAndPropagate_sp_refines inv]) simp_all
  then show ?thesis by (rule refines_weaken) simp
next
  case (OpRule2 i)
  with r obtain res
    where "Rule2_HiddenSingle (SetCellAndPropagate d vs_inter) b i = Some (b', res)"
    by auto
  with g OpRule2 have "refines_except {} b b'"
    by (intro Rule2_refines [OF SetCellAndPropagate_sp_refines inv]) simp_all
  then show ?thesis by (rule refines_weaken) simp
next
  case (OpPropagate i)
  with r have "PropagateConstraints (SetCellAndPropagate d vs_inter) vs_inter b i = Some b'"
    by simp
  with g OpPropagate have "refines_except {} b b'"
    by (intro Propagate_refines [OF SetCellAndPropagate_sp_refines inv]) simp_all
  then show ?thesis by (rule refines_weaken) simp
next
  case (OpSetCell i v)
  with r g have run: "SetCellAndPropagate d vs_inter b i v = Some b'"
    and i: "i < numCells b" and v: "good_value b v" by simp_all
  from SetCellAndPropagate_refines [OF inv i v run] show ?thesis
  proof (rule refines_weaken)
    from T OpSetCell
    show "(if Fixed (GetCell b i) \<or> members v \<subseteq> members (GetCell b i) then {} else {i}) \<subseteq> T"
      by auto
  qed
qed

lemma good_op_keeps:
  "numCells b' = numCells b \<Longrightarrow> numUnits b' = numUnits b \<Longrightarrow> good_op b' op = good_op b op"
  by (cases op) (simp_all add: good_value_def)

lemma set_cells_Cons: "set_cells (op # ops) = set_cells [op] \<union> set_cells ops"
  by (cases op) simp_all

lemma run_cp_ops_refines:
  assumes "cp_invariant b" and "\<forall>op \<in> set ops. good_op b op"
      and "run_cp_ops d vs_inter ops b = Some b'"
      and "ops_within d vs_inter ops b \<or> set_cells ops \<subseteq> T"
  shows "refines_except T b b'"
  using assms
proof (induction ops arbitrary: b)
  case Nil
  then show ?case by (simp add: run_cp_ops_def refines_refl)
next
  case (Cons op ops)
  from Cons.prems(3) obtain b1 where 1: "apply_cp_op d vs_inter op b = Some b1"
    and rest: "run_cp_ops d vs_inter ops b1 = Some b'"
    by (auto simp: run_cp_ops_def split: option.splits)
  from Cons.prems(2) have g: "good_op b op" by simp
  from Cons.prems(4) 1 have T1: "op_within b op \<or> set_cells [op] \<subseteq> T"
    and T2: "ops_within d vs_inter ops b1 \<or> set_cells ops \<subseteq> T"
    using set_cells_Cons [of op ops] by auto
  note ref1 = apply_cp_op_refines [OF Cons.prems(1) g 1 T1]
  from refinesD [OF ref1] have inv1: "cp_invariant b1"
    and n: "numCells b1 = numCells b" "numUnits b1 = numUnits b" by simp_all
  from Cons.prems(2) good_op_keeps [OF n] have "\<forall>op \<in> set ops. good_op b1 op" by simp
  with inv1 have "refines_except T b1 b'" using rest T2 by (rule Cons.IH)
  with ref1 have "refines_except (T \<union> T) b b'" by (rule refines_trans)
  then show ?case by simp
qed

lemma fold_option_inv:
  assumes "\<And>x s s'. x \<in> set xs \<Longrightarrow> P s \<Longrightarrow> f x s = Some s' \<Longrightarrow> P s'"
  shows "P s \<Longrightarrow> fold_option f xs s = Some s' \<Longrightarrow> P s'"
  using assms
proof (induction xs arbitrary: s)
  case Nil
  then show ?case by simp
next
  case (Cons x xs)
  from Cons.prems(2) obtain s1 where 1: "f x s = Some s1" and rest: "fold_option f xs s1 = Some s'"
    by (auto split: option.splits)
  from Cons.prems(3) [OF _ Cons.prems(1) 1] have "P s1" by simp
  then show ?case using rest
  proof (rule Cons.IH)
    fix y t t' assume "y \<in> set xs" "P t" "f y t = Some t'"
    then show "P t'" using Cons.prems(3) [of y t t'] by simp
  qed
qed

lemma initial_board_invariant:
  "cp_invariant \<lparr>order = k, numUnits = k * k, numCells = k * k * (k * k),
      cells = replicate (k * k * (k * k)) (vs_compl (Init (k * k))),
      numFixedCells = 0, numInfeasible = 0\<rparr>"
  by (simp add: cp_invariant_def board_shape_def GetCell_def vs_compl_def Init_def)

lemma digit_set_good:
  assumes "digit_set (numUnits b) x = Some v" and "1 \<le> x" and "x \<le> int (numUnits b)"
  shows "good_value b v"
proof -
  from assms(2,3) have "nat (x - 1) < numUnits b" by simp
  with assms show ?thesis
    by (auto simp: digit_set_def good_value_def Fixed_def Count_def split: if_splits)
qed

lemma Board_of_string_invariant:
  assumes built: "Board_of_string depth vs_inter S = Some b"
      and wf: "\<forall>i \<in> {0..<length S}. S ! i \<noteq> CHR ''.'' \<longrightarrow>
                 1 \<le> cell_value (order_of_length (length S)) (S ! i)
                 \<and> cell_value (order_of_length (length S)) (S ! i)
                     \<le> int (order_of_length (length S) * order_of_length (length S))"
  shows "cp_invariant b"
proof -
  let ?k = "order_of_length (length S)"
  let ?n = "?k * ?k * (?k * ?k)"
  let ?b0 = "\<lparr>order = ?k, numUnits = ?k * ?k, numCells = ?n,
      cells = replicate ?n (vs_compl (Init (?k * ?k))),
      numFixedCells = 0, numInfeasible = 0\<rparr>"
  let ?f = "\<lambda>i board.
              if S ! i \<noteq> CHR ''.''
              then (case digit_set (?k * ?k) (cell_value ?k (S ! i)) of
                      None \<Rightarrow> None
                    | Some v \<Rightarrow> SetCellAndPropagate depth vs_inter board i v)
              else Some board"
  let ?P = "\<lambda>s. cp_invariant s \<and> numCells s = ?n \<and> numUnits s = ?k * ?k"
  have len: "?n \<le> length S"
    by (simp add: order_of_length_def)
  from built have run: "fold_option ?f [0..<?n] ?b0 = Some b"
    by (simp add: Board_of_string_def Let_def)
  have "?P ?b0" using initial_board_invariant [of ?k] by simp
  then have "?P b" using run
  proof (rule fold_option_inv [rotated])
    fix i s s'
    assume i: "i \<in> set [0..<?n]" and P: "?P s" and step: "?f i s = Some s'"
    show "?P s'"
    proof (cases "S ! i \<noteq> CHR ''.''")
      case False
      with step P show ?thesis by simp
    next
      case True
      with step obtain v where v: "digit_set (?k * ?k) (cell_value ?k (S ! i)) = Some v"
        and call: "SetCellAndPropagate depth vs_inter s i v = Some s'"
        by (auto split: option.splits)
      from i len have "i \<in> {0..<length S}" by simp
      with wf True have "1 \<le> cell_value ?k (S ! i)" "cell_value ?k (S ! i) \<le> int (?k * ?k)"
        by blast+
      with v P have good: "good_value s v" by (intro digit_set_good [of s "cell_value ?k (S ! i)"]) simp_all
      from i P have "i < numCells s" by simp
      with P have "refines_except
           (if Fixed (GetCell s i) \<or> members v \<subseteq> members (GetCell s i) then {} else {i}) s s'"
        using good call by (intro SetCellAndPropagate_refines) simp_all
      from refinesD [OF this] P show ?thesis by simp
    qed
  qed
  then show ?thesis by simp
qed

section \<open>Rule 1 on the boards of the program\<close>

text \<open>
  C1.  The boards that the constructor and the operations of constraint propagation
  build satisfy \<open>cp_invariant\<close> (\<open>Board_of_string_invariant\<close>, \<open>run_cp_ops_refines\<close>), and
  \<open>^\<close> is read as intersection, the reading under which \<open>cell ^ fixedCellsConstraint\<close>
  removes the fixed values as the comment of the source says.  On such a board, for a
  cell \<open>c\<close> at index \<open>i\<close> that is neither fixed nor empty, Rule 1 computes the union F of
  the values fixed in the row, the column and the box of \<open>c\<close> (without \<open>c\<close>); if \<open>c\<close>
  without F is fixed it calls \<open>SetCellAndPropagate\<close> with it and returns true, otherwise
  it stores \<open>c\<close> without F and returns false.  In both cases cell \<open>i\<close> holds \<open>c\<close> without F
  afterwards, the result is true exactly when cell \<open>i\<close> is fixed afterwards, the counter
  has grown when the result is true, and the new board satisfies the invariant again.
  The rule returns as soon as the bound on the depth exceeds the number of cells not
  yet fixed.
\<close>

theorem Rule1_Elimination_behaviour:
  assumes "cp_invariant board" and "i < numCells board"
      and "\<not> Empty (GetCell board i)" and "\<not> Fixed (GetCell board i)"
  shows "Rule1_Elimination (SetCellAndPropagate depth vs_inter) vs_inter board i =
           (if Fixed (vs_minus (GetCell board i) (fixed_values board i))
            then map_option (\<lambda>b'. (b', True))
                   (SetCellAndPropagate depth vs_inter board i
                      (vs_minus (GetCell board i) (fixed_values board i)))
            else Some (SetCellDirect board i
                         (vs_minus (GetCell board i) (fixed_values board i)), False))
     \<and> (unfixed board + 1 \<le> depth
          \<longrightarrow> Rule1_Elimination (SetCellAndPropagate depth vs_inter) vs_inter board i \<noteq> None)
     \<and> (\<forall>b' res.
           Rule1_Elimination (SetCellAndPropagate depth vs_inter) vs_inter board i
             = Some (b', res)
           \<longrightarrow> GetCell b' i = vs_minus (GetCell board i) (fixed_values board i)
               \<and> res = Fixed (GetCell b' i)
               \<and> (res \<longrightarrow> numFixedCells board < numFixedCells b')
               \<and> cp_invariant b')"
proof -
  let ?r = "vs_minus (GetCell board i) (fixed_values board i)"
  let ?rule = "Rule1_Elimination (SetCellAndPropagate depth vs_inter) vs_inter board i"
  note inv = assms(1) and i = assms(2) and nf = assms(4)
  from inv have sh: "board_shape board" by (rule cp_invariant_shape)
  with i have len: "i < length (cells board)" by (simp add: board_shape_def)
  have r: "?r = not_fixed_values board i" by (rule reduced_cell_eq(1) [OF inv i nf])
  have x: "vs_inter (GetCell board i) (not_fixed_values board i) = not_fixed_values board i"
    by (rule reduced_cell_eq(2) [OF inv i nf])
  have eq: "?rule =
           (if Fixed ?r
            then map_option (\<lambda>b'. (b', True)) (SetCellAndPropagate depth vs_inter board i ?r)
            else Some (SetCellDirect board i ?r, False))"
    unfolding r using assms(3,4)
    by (simp add: Rule1_Elimination_def Let_def fixedCellsConstraint_eq map_option_case x)
  have returns: "?rule \<noteq> None" if "unfixed board + 1 \<le> depth"
  proof -
    from sh i obtain res where
      "\<forall>d \<ge> unfixed board + 1.
         Rule1_Elimination (SetCellAndPropagate d vs_inter) vs_inter board i = Some res"
      using Rule1_returns by blast
    with that show ?thesis by simp
  qed
  have after: "GetCell b' i = ?r \<and> res = Fixed (GetCell b' i)
               \<and> (res \<longrightarrow> numFixedCells board < numFixedCells b') \<and> cp_invariant b'"
    if run: "?rule = Some (b', res)" for b' res
  proof -
    from Rule1_refines [OF SetCellAndPropagate_sp_refines inv i run]
    have inv': "cp_invariant b'" by (rule refinesD)
    show ?thesis
    proof (cases "Fixed ?r")
      case True
      with run eq have call: "SetCellAndPropagate depth vs_inter board i ?r = Some b'"
        and res: "res" by auto
      from SetCellAndPropagate_sets [OF call nf True len] True res inv' show ?thesis by simp
    next
      case False
      with run eq have "b' = SetCellDirect board i ?r" and "\<not> res" by auto
      with len False inv' show ?thesis by (simp add: SetCellDirect_def GetCell_def)
    qed
  qed
  from eq returns after show ?thesis by blast
qed

text \<open>Two calls: on \<open>two9\<close> the peers of cell 1 fix every digit but 2 and the rule fixes
  the cell; on \<open>first_given9\<close>, the board of the first call of Rule 1 when a puzzle starts
  with the digit 1, cell 1 loses the digit 1 and the rule returns false.\<close>

theorem Rule1_Elimination_behaviour_witness:
  "cp_invariant two9 \<and> (1::nat) < numCells two9
     \<and> \<not> Empty (GetCell two9 1) \<and> \<not> Fixed (GetCell two9 1)
     \<and> unfixed two9 + 1 \<le> 3
     \<and> vs_minus (GetCell two9 1) (fixed_values two9 1) = single9 1
     \<and> (case Rule1_Elimination (SetCellAndPropagate 3 vs_inter) vs_inter two9 1 of
          None \<Rightarrow> False
        | Some (b', res) \<Rightarrow> res \<and> GetCell b' 1 = single9 1
            \<and> numFixedCells two9 < numFixedCells b')
     \<and> cp_invariant first_given9 \<and> (1::nat) < numCells first_given9
     \<and> \<not> Empty (GetCell first_given9 1) \<and> \<not> Fixed (GetCell first_given9 1)
     \<and> Rule1_Elimination (SetCellAndPropagate 1 vs_inter) vs_inter first_given9 1
         = Some (SetCellDirect first_given9 1
                   \<lparr>maxVal = 9, members = {1, 2, 3, 4, 5, 6, 7, 8}\<rparr>, False)"
proof -
  let ?rule = "Rule1_Elimination (SetCellAndPropagate 3 vs_inter) vs_inter two9 1"
  have inv: "cp_invariant two9" by code_simp
  have i: "1 < numCells two9" by code_simp
  have h1: "\<not> Empty (GetCell two9 1)" by code_simp
  have h2: "\<not> Fixed (GetCell two9 1)" by code_simp
  have u: "unfixed two9 + 1 \<le> 3" by code_simp
  have r: "vs_minus (GetCell two9 1) (fixed_values two9 1) = single9 1" by code_simp
  have fx: "Fixed (single9 1)" by code_simp
  note claim = Rule1_Elimination_behaviour [OF inv i h1 h2, of 3]
  from claim u have "?rule \<noteq> None" by blast
  then obtain b' res where run: "?rule = Some (b', res)" by auto
  with claim have "GetCell b' 1 = single9 1 \<and> res = Fixed (GetCell b' 1)
      \<and> (res \<longrightarrow> numFixedCells two9 < numFixedCells b')"
    unfolding r by blast
  with fx have "res \<and> GetCell b' 1 = single9 1 \<and> numFixedCells two9 < numFixedCells b'"
    by simp
  then have first:
    "(case ?rule of None \<Rightarrow> False
      | Some (b', res) \<Rightarrow> res \<and> GetCell b' 1 = single9 1
          \<and> numFixedCells two9 < numFixedCells b')"
    unfolding run by simp
  have inv2: "cp_invariant first_given9" by code_simp
  have i2: "1 < numCells first_given9" by code_simp
  have g1: "\<not> Empty (GetCell first_given9 1)" by code_simp
  have g2: "\<not> Fixed (GetCell first_given9 1)" by code_simp
  have r2: "vs_minus (GetCell first_given9 1) (fixed_values first_given9 1)
      = \<lparr>maxVal = 9, members = {1, 2, 3, 4, 5, 6, 7, 8}\<rparr>" by code_simp
  have nfx: "\<not> Fixed \<lparr>maxVal = 9, members = {1, 2, 3, 4, 5, 6, 7, 8::nat}\<rparr>" by code_simp
  from Rule1_Elimination_behaviour [OF inv2 i2 g1 g2, of 1] nfx
  have second: "Rule1_Elimination (SetCellAndPropagate 1 vs_inter) vs_inter first_given9 1
         = Some (SetCellDirect first_given9 1
                   \<lparr>maxVal = 9, members = {1, 2, 3, 4, 5, 6, 7, 8}\<rparr>, False)"
    unfolding r2 by simp
  from inv i h1 h2 u r first inv2 i2 g1 g2 second show ?thesis by blast
qed

section \<open>Monotonicity of constraint propagation\<close>

text \<open>
  C3, as the code has it.  A sequence of the four operations on cells of a board of the
  right shape returns as soon as the bound on the depth of the recursion is the number
  of cells not yet fixed plus two.  Whenever it returns, the counter \<open>numFixedCells\<close> has
  not decreased and every cell that was fixed has kept its candidate set.  On the
  boards of the program, with \<open>^\<close> read as intersection and single digits handed to
  \<open>SetCellAndPropagate\<close>, the result satisfies the invariant again, no cell other than
  those \<open>SetCellAndPropagate\<close> was called on has gained a bit, and no cell at all has
  when every such call was given a candidate of its cell or a cell already fixed.
  \<open>SetCellAndPropagate\<close> on a cell that is not fixed stores the value it is given,
  candidate or not.
\<close>

theorem cp_monotonicity:
  "(board_shape board \<and> (\<forall>op \<in> set ops. op_cell op < numCells board)
      \<and> unfixed board + 2 \<le> depth
      \<longrightarrow> run_cp_ops depth xr ops board \<noteq> None)
   \<and> (\<forall>board'. run_cp_ops depth xr ops board = Some board' \<longrightarrow>
          numFixedCells board \<le> numFixedCells board'
          \<and> (\<forall>j. Fixed (GetCell board j) \<longrightarrow> GetCell board' j = GetCell board j))
   \<and> (cp_invariant board \<and> (\<forall>op \<in> set ops. good_op board op) \<longrightarrow>
        (\<forall>board'. run_cp_ops depth vs_inter ops board = Some board' \<longrightarrow>
           cp_invariant board'
           \<and> (\<forall>j \<in> {0..<numCells board} - set_cells ops.
                 members (GetCell board' j) \<subseteq> members (GetCell board j))
           \<and> (ops_within depth vs_inter ops board \<longrightarrow>
                (\<forall>j \<in> {0..<numCells board}.
                   members (GetCell board' j) \<subseteq> members (GetCell board j)))))
   \<and> (\<forall>i v b'. \<not> Fixed (GetCell board i) \<and> Fixed v \<and> i < length (cells board)
          \<and> SetCellAndPropagate depth xr board i v = Some b' \<longrightarrow> GetCell b' i = v)"
proof -
  have returns: "run_cp_ops depth xr ops board \<noteq> None"
    if "board_shape board \<and> (\<forall>op \<in> set ops. op_cell op < numCells board)
      \<and> unfixed board + 2 \<le> depth"
  proof -
    from that have "\<exists>b'. run_cp_ops depth xr ops board = Some b'"
      by (intro run_cp_ops_returns) simp_all
    then show ?thesis by auto
  qed
  have keeps: "numFixedCells board \<le> numFixedCells board'
          \<and> (\<forall>j. Fixed (GetCell board j) \<longrightarrow> GetCell board' j = GetCell board j)"
    if "run_cp_ops depth xr ops board = Some board'" for board'
  proof -
    from that have "keeps_fixed board board'"
      unfolding run_cp_ops_def
      by (rule fold_option_keeps [rotated]) (rule apply_cp_op_keeps)
    then show ?thesis by (simp add: keeps_fixed_def)
  qed
  have shrinks: "cp_invariant board'
           \<and> (\<forall>j \<in> {0..<numCells board} - set_cells ops.
                 members (GetCell board' j) \<subseteq> members (GetCell board j))
           \<and> (ops_within depth vs_inter ops board \<longrightarrow>
                (\<forall>j \<in> {0..<numCells board}.
                   members (GetCell board' j) \<subseteq> members (GetCell board j)))"
    if inv: "cp_invariant board \<and> (\<forall>op \<in> set ops. good_op board op)"
      and run: "run_cp_ops depth vs_inter ops board = Some board'" for board'
  proof -
    from inv have i: "cp_invariant board" and g: "\<forall>op \<in> set ops. good_op board op"
      by simp_all
    have "refines_except (set_cells ops) board board'"
      using i g run by (rule run_cp_ops_refines) simp
    moreover have "refines_except {} board board'" if "ops_within depth vs_inter ops board"
      using i g run by (rule run_cp_ops_refines) (simp add: that)
    ultimately show ?thesis by (simp add: refines_except_def)
  qed
  have stores: "GetCell b' i = v"
    if "\<not> Fixed (GetCell board i) \<and> Fixed v \<and> i < length (cells board)
          \<and> SetCellAndPropagate depth xr board i v = Some b'" for i v b'
    using that SetCellAndPropagate_sets [of depth xr board i v b'] by simp
  from returns keeps shrinks stores show ?thesis by blast
qed

theorem cp_monotonicity_witness:
  "board_shape two9 \<and> cp_invariant two9 \<and> numCells two9 = 81 \<and> unfixed two9 + 2 \<le> 4
   \<and> map op_cell [OpSetCell 0 (single9 0), OpPropagate 1, OpRule2 2, OpRule1 3] = [0, 1, 2, 3]
   \<and> list_all (good_op two9) [OpSetCell 0 (single9 0), OpPropagate 1, OpRule2 2, OpRule1 3]
   \<and> ops_within 4 vs_inter [OpSetCell 0 (single9 0), OpPropagate 1, OpRule2 2, OpRule1 3] two9
   \<and> Fixed (GetCell two9 5)
   \<and> (case run_cp_ops 4 vs_inter [OpSetCell 0 (single9 0), OpPropagate 1, OpRule2 2, OpRule1 3] two9 of
        None \<Rightarrow> False
      | Some b' \<Rightarrow> numFixedCells two9 \<le> numFixedCells b' \<and> GetCell b' 5 = GetCell two9 5
          \<and> members (GetCell b' 1) \<subseteq> members (GetCell two9 1) \<and> cp_invariant b')"
proof -
  let ?ops = "[OpSetCell 0 (single9 0), OpPropagate 1, OpRule2 2, OpRule1 3]"
  let ?run = "run_cp_ops 4 vs_inter ?ops two9"
  have sh: "board_shape two9" by code_simp
  have inv: "cp_invariant two9" by code_simp
  have n: "numCells two9 = 81" by code_simp
  have u: "unfixed two9 + 2 \<le> 4" by code_simp
  have good: "list_all (good_op two9) ?ops" by code_simp
  have within: "ops_within 4 vs_inter ?ops two9" by code_simp
  have f: "Fixed (GetCell two9 5)" by code_simp
  have inr: "\<forall>op \<in> set ?ops. op_cell op < numCells two9" by (simp add: n)
  from good have good': "\<forall>op \<in> set ?ops. good_op two9 op" by (simp only: list_all_iff)
  note claim = cp_monotonicity [of two9 ?ops 4 vs_inter]
  from claim sh inr u have "?run \<noteq> None" by blast
  then obtain b' where run: "?run = Some b'" by auto
  from claim run f have 1: "numFixedCells two9 \<le> numFixedCells b' \<and> GetCell b' 5 = GetCell two9 5"
    by blast
  from claim inv good' run within
  have 2: "cp_invariant b'
      \<and> (\<forall>j \<in> {0..<numCells two9}. members (GetCell b' j) \<subseteq> members (GetCell two9 j))"
    by blast
  with n have 3: "members (GetCell b' 1) \<subseteq> members (GetCell two9 1)" by simp
  from sh inv n u good within f 1 2 3 show ?thesis unfolding run by simp
qed

text \<open>
  The puzzle \<open>puzzle_two_ones\<close> has the digit 1 in its first two cells.  The constructor
  calls \<open>SetCellAndPropagate\<close> on cell 0 and then on cell 1, each with the digit 1
  (position 0), from the board whose cells are all full.  After the first call cell 1
  holds the digits 2 to 9; it is not fixed, so the second call stores the digit 1 in
  it: cell 1 has gained a bit.
\<close>

lemma first_given_shrinks:
  "map_option (\<lambda>b. members (GetCell b 1))
     (run_cp_ops 2 vs_inter [OpSetCell 0 (single9 0)] blank9) = Some {1, 2, 3, 4, 5, 6, 7, 8}"
  by code_simp

lemma second_given_gains:
  "map_option (\<lambda>b. members (GetCell b 1))
     (run_cp_ops 2 vs_inter [OpSetCell 0 (single9 0), OpSetCell 1 (single9 0)] blank9) = Some {0}"
  by code_simp

lemma two_ones_constructor:
  "Board_of_string 2 vs_inter puzzle_two_ones
     = run_cp_ops 2 vs_inter [OpSetCell 0 (single9 0), OpSetCell 1 (single9 0)] blank9"
  by code_simp

theorem candidate_gain_counterexample:
  "map_option (\<lambda>b. members (GetCell b 1))
     (run_cp_ops 2 vs_inter [OpSetCell 0 (single9 0)] blank9) = Some {1, 2, 3, 4, 5, 6, 7, 8}
   \<and> map_option (\<lambda>b. members (GetCell b 1))
       (run_cp_ops 2 vs_inter [OpSetCell 0 (single9 0), OpSetCell 1 (single9 0)] blank9) = Some {0}
   \<and> Board_of_string 2 vs_inter puzzle_two_ones
       = run_cp_ops 2 vs_inter [OpSetCell 0 (single9 0), OpSetCell 1 (single9 0)] blank9"
  using first_given_shrinks second_given_gains two_ones_constructor by blast

section \<open>The solution check\<close>

lemma fold_flag:
  "fold (\<lambda>i s. if P i then False else s) xs s0 = (s0 \<and> (\<forall>i \<in> set xs. \<not> P i))"
  by (induction xs arbitrary: s0) auto

lemma fold_flag2:
  "fold (\<lambda>i s. if A i then (if B i then False else s) else s) xs s0
     = (s0 \<and> (\<forall>i \<in> set xs. A i \<longrightarrow> \<not> B i))"
  by (induction xs arbitrary: s0) auto

lemma all_of_Un: "all_of X f (A \<union> B) = all_of X f A \<union> all_of X f B"
  by (auto simp: all_of_def)

lemma unit_loop:
  "fold (\<lambda>j (row, col, box).
           (vs_plus row (GetCell X (fr j)), vs_plus col (GetCell X (fc j)),
            vs_plus box (GetCell X (fb j))))
     js (r, c, x)
   = (r\<lparr>members := members r \<union> all_of X fr (set js)\<rparr>,
      c\<lparr>members := members c \<union> all_of X fc (set js)\<rparr>,
      x\<lparr>members := members x \<union> all_of X fb (set js)\<rparr>)"
  (is "fold ?g js (r, c, x) = _")
proof (induction js arbitrary: r c x)
  case Nil
  then show ?case by (simp add: all_of_def)
next
  case (Cons j js)
  let ?r1 = "r\<lparr>members := members r \<union> all_of X fr {j}\<rparr>"
  let ?c1 = "c\<lparr>members := members c \<union> all_of X fc {j}\<rparr>"
  let ?x1 = "x\<lparr>members := members x \<union> all_of X fb {j}\<rparr>"
  have step: "?g j (r, c, x) = (?r1, ?c1, ?x1)"
    by (simp add: vs_plus_def all_of_def)
  have split: "set (j # js) = {j} \<union> set js" by simp
  have "fold ?g (j # js) (r, c, x) = fold ?g js (?g j (r, c, x))" by simp
  also have "\<dots> = fold ?g js (?r1, ?c1, ?x1)" by (simp only: step)
  also have "\<dots> = (?r1\<lparr>members := members ?r1 \<union> all_of X fr (set js)\<rparr>,
      ?c1\<lparr>members := members ?c1 \<union> all_of X fc (set js)\<rparr>,
      ?x1\<lparr>members := members ?x1 \<union> all_of X fb (set js)\<rparr>)"
    by (rule Cons.IH)
  also have "\<dots> = (r\<lparr>members := members r \<union> all_of X fr (set (j # js))\<rparr>,
      c\<lparr>members := members c \<union> all_of X fc (set (j # js))\<rparr>,
      x\<lparr>members := members x \<union> all_of X fb (set (j # js))\<rparr>)"
    unfolding split all_of_Un by (simp add: Un_assoc)
  finally show ?case .
qed

lemma CheckSolution_loops:
  "CheckSolution P X \<longleftrightarrow>
     CellCount X = CellCount P
     \<and> (\<forall>i \<in> {0..<CellCount X}. Fixed (GetCell X i))
     \<and> (\<forall>u \<in> {0..<numUnits P}.
           card (all_of X (RowCell P u) {0..<numUnits P}) = numUnits P
         \<and> card (all_of X (ColCell P u) {0..<numUnits P}) = numUnits P
         \<and> card (all_of X (BoxCell P u) {0..<numUnits P}) = numUnits P)
     \<and> (\<forall>i \<in> {0..<CellCount P}.
           Fixed (GetCell P i) \<longrightarrow> Index (GetCell P i) = Index (GetCell X i))"
  unfolding CheckSolution_def Let_def
  by (simp only: unit_loop fold_flag fold_flag2 prod.case)
    (auto simp: Init_def Count_def)

lemma Fixed_members: "Fixed c \<Longrightarrow> members c = {Index c}"
proof -
  assume "Fixed c"
  then have "card (members c) = 1" by (simp add: Fixed_def Count_def)
  then obtain x where "members c = {x}" by (rule card_1_singletonE)
  then show ?thesis by (simp add: Index_def)
qed

lemma permutation_card:
  assumes len: "length ds = n" and range: "set ds \<subseteq> {0..<n}"
  shows "card (set ds) = n \<longleftrightarrow> mset (map Suc ds) = mset [1..<n + 1]"
proof
  assume card: "card (set ds) = n"
  with len have dist: "distinct ds" by (simp add: card_distinct)
  from range card have "set ds = {0..<n}"
    by (intro card_subset_eq) simp_all
  then have "set ds = set [0..<n]" by simp
  with dist have "mset ds = mset [0..<n]"
    by (simp only: set_eq_iff_mset_eq_distinct [OF dist distinct_upt])
  then have "image_mset Suc (mset ds) = image_mset Suc (mset [0..<n])"
    by (rule arg_cong)
  then have "mset (map Suc ds) = mset (map Suc [0..<n])"
    by (simp only: mset_map)
  then show "mset (map Suc ds) = mset [1..<n + 1]"
    by (simp only: map_Suc_upt One_nat_def add_Suc_right add_0_right)
next
  assume "mset (map Suc ds) = mset [1..<n + 1]"
  then have "distinct (map Suc ds) = distinct [1..<n + 1]"
    by (rule mset_eq_imp_distinct_iff)
  then have "distinct (map Suc ds)" by (simp only: distinct_upt)
  then have "distinct ds" by (simp only: distinct_map)
  with len show "card (set ds) = n" by (simp only: distinct_card)
qed

lemma unit_permutation:
  assumes complete: "complete X" and range: "cells_in_range X"
      and len: "length (cells X) = numCells X"
      and inside: "\<And>j. j < numUnits X \<Longrightarrow> f j < numCells X"
  shows "card (all_of X f {0..<numUnits X}) = numUnits X \<longleftrightarrow> is_permutation_unit X f"
proof -
  let ?n = "numUnits X"
  let ?ds = "map (\<lambda>j. Index (GetCell X (f j))) [0..<?n]"
  have cell: "members (GetCell X (f j)) = {Index (GetCell X (f j))}" if "j < ?n" for j
    using complete inside [OF that] by (simp add: complete_def Fixed_members)
  have "all_of X f {0..<?n} = set ?ds"
    using cell by (auto simp: all_of_def)
  moreover have "set ?ds \<subseteq> {0..<?n}"
  proof -
    have "Index (GetCell X (f j)) < ?n" if "j < ?n" for j
    proof -
      from inside [OF that] len have "GetCell X (f j) \<in> set (cells X)"
        by (simp add: GetCell_def)
      with range have "members (GetCell X (f j)) \<subseteq> {0..<?n}"
        by (simp add: cells_in_range_def)
      with cell [OF that] show ?thesis by simp
    qed
    then show ?thesis by auto
  qed
  moreover have "length ?ds = ?n" by simp
  ultimately have "card (all_of X f {0..<?n}) = ?n \<longleftrightarrow> mset (map Suc ?ds) = mset [1..<?n + 1]"
    using permutation_card [of ?ds ?n] by simp
  then show ?thesis
    by (simp add: is_permutation_unit_def digit_at_def comp_def)
qed

lemma square_inject: "a * a = b * b \<Longrightarrow> a = (b::nat)"
  using power2_eq_imp_eq [of a b] by (simp add: power2_eq_square)

lemma same_order:
  assumes "board_shape P" "board_shape X" "numCells X = numCells P"
  shows "order X = order P \<and> numUnits X = numUnits P"
proof -
  from assms have "numUnits X * numUnits X = numUnits P * numUnits P"
    by (simp only: board_shape_def)
  then have units: "numUnits X = numUnits P" by (rule square_inject)
  with assms(1,2) have "order X * order X = order P * order P"
    by (simp only: board_shape_def)
  then have "order X = order P" by (rule square_inject)
  with units show ?thesis by simp
qed

text \<open>
  C2, as the code has it.  For boards of the same shape whose cells stay inside the
  universe, \<open>P.CheckSolution(X)\<close> is true exactly when \<open>X\<close> has as many cells as \<open>P\<close>,
  every cell of \<open>X\<close> is fixed, every row, column and box of \<open>X\<close> holds each of the
  digits 1 to N once, and every cell that is fixed in \<open>P\<close> holds the same digit in
  \<open>X\<close>.  The fixed cells are those of the board the method is called on; \<open>main\<close>
  calls it on the board after the constructor's constraint propagation.
\<close>

theorem check_solution_iff:
  assumes P: "board_shape P" and X: "board_shape X" and range: "cells_in_range X"
  shows "CheckSolution P X \<longleftrightarrow>
           CellCount X = CellCount P \<and> complete X \<and> valid_units X \<and> agrees_with_fixed P X"
proof (cases "CellCount X = CellCount P")
  case False
  then show ?thesis by (simp add: CheckSolution_def)
next
  case True
  then have cells: "numCells X = numCells P" by (simp add: CellCount_def)
  from same_order [OF P X cells] have ord: "order X = order P" and units: "numUnits X = numUnits P"
    by simp_all
  have geometry: "RowCell P = RowCell X" "ColCell P = ColCell X" "BoxCell P = BoxCell X"
    by (simp_all add: fun_eq_iff RowCell_def ColCell_def BoxCell_def ord units)
  from X have len: "length (cells X) = numCells X" by (simp add: board_shape_def)
  show ?thesis
  proof (cases "complete X")
    case False
    then show ?thesis
      by (auto simp: CheckSolution_loops complete_def CellCount_def)
  next
    case complete: True
    have perm: "card (all_of X (RowCell X u) {0..<numUnits X}) = numUnits X
          \<longleftrightarrow> is_permutation_unit X (RowCell X u)"
        "card (all_of X (ColCell X u) {0..<numUnits X}) = numUnits X
          \<longleftrightarrow> is_permutation_unit X (ColCell X u)"
        "card (all_of X (BoxCell X u) {0..<numUnits X}) = numUnits X
          \<longleftrightarrow> is_permutation_unit X (BoxCell X u)"
      if "u < numUnits X" for u
      using that
      by (auto intro!: unit_permutation [OF complete range len]
          RowCell_in_range [OF X] ColCell_in_range [OF X] BoxCell_in_range [OF X])
    have agree: "agrees_with_fixed P X \<longleftrightarrow>
        (\<forall>i \<in> {0..<CellCount P}. Fixed (GetCell P i) \<longrightarrow> Index (GetCell P i) = Index (GetCell X i))"
      by (simp add: agrees_with_fixed_def digit_at_def CellCount_def)
    have units_ok: "valid_units X \<longleftrightarrow>
        (\<forall>u \<in> {0..<numUnits P}.
           card (all_of X (RowCell P u) {0..<numUnits P}) = numUnits P
         \<and> card (all_of X (ColCell P u) {0..<numUnits P}) = numUnits P
         \<and> card (all_of X (BoxCell P u) {0..<numUnits P}) = numUnits P)"
      unfolding valid_units_def geometry units [symmetric]
      using perm by auto
    from complete have all_fixed: "\<forall>i \<in> {0..<CellCount X}. Fixed (GetCell X i)"
      by (simp add: complete_def CellCount_def)
    show ?thesis
      unfolding CheckSolution_loops agree units_ok
      using True complete all_fixed by blast
  qed
qed

theorem check_solution_iff_witness:
  "board_shape two9 \<and> board_shape solved9 \<and> cells_in_range solved9
     \<and> CheckSolution two9 solved9
     \<and> complete solved9 \<and> valid_units solved9 \<and> agrees_with_fixed two9 solved9"
proof -
  have h1: "board_shape two9" by code_simp
  have h2: "board_shape solved9" by code_simp
  have h3: "cells_in_range solved9" by code_simp
  have ok: "CheckSolution two9 solved9" by code_simp
  with check_solution_iff [OF h1 h2 h3] h1 h2 h3 show ?thesis by blast
qed

text \<open>
  The fixed cells compared are not those of the puzzle string.  With the givens
  \<open>1 2 3 4 5 6 7 8 1\<close> in the first row (intersection for \<open>^\<close>), propagation fixes the
  ninth cell on 9 before its given 1 is read, the given is skipped, and the check
  accepts \<open>solved9\<close>, which does not agree with that given.  With the single given 1
  (symmetric difference for \<open>^\<close>), propagation leaves the peers of the first cell with
  the one candidate 1, and the check rejects \<open>solved9\<close>, which is complete, valid and
  agrees with the given.
\<close>

lemma puzzle_row_accepted:
  "(case Board_of_string 2 vs_inter puzzle_row of
      None \<Rightarrow> False | Some P \<Rightarrow> CheckSolution P solved9)"
  by code_simp

lemma puzzle_row_disagrees: "\<not> givens_agree puzzle_row solved9"
  by code_simp

lemma puzzle_one_rejected:
  "(case Board_of_string 2 vs_symdiff puzzle_one of
      None \<Rightarrow> False | Some P \<Rightarrow> \<not> CheckSolution P solved9)"
  by code_simp

lemma solved9_valid: "complete solved9 \<and> valid_units solved9"
  by code_simp

lemma puzzle_one_agrees: "givens_agree puzzle_one solved9"
  by code_simp

theorem check_solution_givens_counterexample:
  "(case Board_of_string 2 vs_inter puzzle_row of
      None \<Rightarrow> False | Some P \<Rightarrow> CheckSolution P solved9)
   \<and> \<not> (complete solved9 \<and> valid_units solved9 \<and> givens_agree puzzle_row solved9)
   \<and> (case Board_of_string 2 vs_symdiff puzzle_one of
        None \<Rightarrow> False | Some P \<Rightarrow> \<not> CheckSolution P solved9)
   \<and> (complete solved9 \<and> valid_units solved9 \<and> givens_agree puzzle_one solved9)"
  using puzzle_row_accepted puzzle_row_disagrees puzzle_one_rejected solved9_valid
    puzzle_one_agrees
  by blast

end
